theory Spec2Isabelle
  imports Main
begin

section \<open>Python strings and the Unicode database\<close>

text \<open>
  A Python \<open>str\<close> is a sequence of Unicode code points, so a string is modelled as a list
  of natural numbers, one per code point. \<open>py\<close> turns an ASCII literal into such a list.
  Only the ASCII part of the character tables is fixed here; what Python's Unicode
  database says about the code points from 128 on (\<open>str.isspace\<close>, \<open>str.isalnum\<close>, the
  character names behind \<open>\N{...}\<close>) belongs to the interpreter, not to this module, and
  is a parameter \<open>U\<close> of every function that depends on it.
\<close>

type_synonym pystr = "nat list"

definition py :: "string \<Rightarrow> pystr" where
  "py s = map of_char s"

abbreviation DQ :: pystr where "DQ \<equiv> [34]"
abbreviation SQ :: pystr where "SQ \<equiv> [39]"
abbreviation BSL :: pystr where "BSL \<equiv> [92]"
abbreviation NL :: pystr where "NL \<equiv> [10]"
abbreviation TAB :: pystr where "TAB \<equiv> [9]"

record ucd =
  uc_isspace :: "nat \<Rightarrow> bool"
  uc_isalnum :: "nat \<Rightarrow> bool"
  uc_getcode :: "nat list \<Rightarrow> nat option"

definition py_isspace :: "ucd \<Rightarrow> nat \<Rightarrow> bool" where
  "py_isspace U c =
     (if c < 128 then (9 \<le> c \<and> c \<le> 13) \<or> (28 \<le> c \<and> c \<le> 32) else uc_isspace U c)"

definition py_isalnum :: "ucd \<Rightarrow> nat \<Rightarrow> bool" where
  "py_isalnum U c =
     (if c < 128 then (48 \<le> c \<and> c \<le> 57) \<or> (65 \<le> c \<and> c \<le> 90) \<or> (97 \<le> c \<and> c \<le> 122)
      else uc_isalnum U c)"

text \<open>\<open>str.strip()\<close> without argument: whitespace removed at both ends.\<close>

definition py_strip :: "ucd \<Rightarrow> pystr \<Rightarrow> pystr" where
  "py_strip U s = rev (dropWhile (py_isspace U) (rev (dropWhile (py_isspace U) s)))"

datatype error =
    NotImplementedError
  | TypeError
  | UnicodeDecodeError
  | UnicodeEncodeError
  | ValueError
  | FileNotFoundError
  | PermissionError
  | IsADirectoryError

section \<open>Regular expressions of the \<open>re\<close> module\<close>

text \<open>
  The four patterns of the module use character classes, bounded and unbounded
  repetition of a class (greedy or lazy), capture groups, one alternation, one
  back-reference and the anchors \<open>^\<close> and \<open>$\<close>. \<open>Rep c m n g\<close> is the class \<open>c\<close>
  repeated at least \<open>m\<close> and at most \<open>n\<close> times (\<open>None\<close>: unbounded), greedy when \<open>g\<close>.
  Numbered groups are kept under their number written as a string.
\<close>

datatype atom = Chr char | Rng char char | Space | Word

datatype cls = Dot | OneOf "atom list" | NoneOf "atom list"

record flags =
  multiline :: bool
  dotall :: bool

datatype regex =
    Rep cls nat "nat option" bool
  | Cap string "regex list"
  | Alt "regex list" "regex list"
  | Ref string
  | Bol
  | Eol

abbreviation Star :: "cls \<Rightarrow> regex" where "Star c \<equiv> Rep c 0 None True"
abbreviation Plus :: "cls \<Rightarrow> regex" where "Plus c \<equiv> Rep c 1 None True"
abbreviation One :: "cls \<Rightarrow> regex" where "One c \<equiv> Rep c 1 (Some 1) True"
abbreviation Lit :: "char \<Rightarrow> regex" where "Lit a \<equiv> Rep (OneOf [Chr a]) 1 (Some 1) True"

type_synonym pattern = "flags \<times> regex list"

type_synonym groups = "string \<rightharpoonup> pystr"

fun atom_mem :: "ucd \<Rightarrow> atom \<Rightarrow> nat \<Rightarrow> bool" where
  "atom_mem U (Chr a) c = (c = of_char a)"
| "atom_mem U (Rng a b) c = (of_char a \<le> c \<and> c \<le> of_char b)"
| "atom_mem U Space c = py_isspace U c"
| "atom_mem U Word c = (py_isalnum U c \<or> c = 95)"

fun cls_mem :: "ucd \<Rightarrow> flags \<Rightarrow> cls \<Rightarrow> nat \<Rightarrow> bool" where
  "cls_mem U F Dot c = (dotall F \<or> c \<noteq> 10)"
| "cls_mem U F (OneOf as) c = (\<exists>a \<in> set as. atom_mem U a c)"
| "cls_mem U F (NoneOf as) c = (\<not> (\<exists>a \<in> set as. atom_mem U a c))"

text \<open>
  The matcher is the backtracking search of \<open>re\<close>: it walks the pattern from left to
  right, carries the character before the current position (for \<open>^\<close>), the rest of the
  text and the groups captured so far, and calls the continuation \<open>k\<close> on what follows.
  An alternative that makes the continuation fail is given up and the next one is tried,
  in the order of \<open>re\<close>: a greedy repetition tries the longer match first, a lazy one the
  shorter, an alternation its left branch.
\<close>

fun rep :: "(nat \<Rightarrow> bool) \<Rightarrow> bool \<Rightarrow> nat \<Rightarrow> nat option \<Rightarrow> nat option \<Rightarrow> pystr
    \<Rightarrow> (nat option \<Rightarrow> pystr \<Rightarrow> 'r option) \<Rightarrow> 'r option" where
  "rep p g m mx pv [] k = (if m = 0 then k pv [] else None)"
| "rep p g m mx pv (c # cs) k =
    (if g then
       (case (if p c \<and> mx \<noteq> Some 0
              then rep p g (m - 1) (map_option (\<lambda>n. n - 1) mx) (Some c) cs k else None) of
          Some r \<Rightarrow> Some r
        | None \<Rightarrow> (if m = 0 then k pv (c # cs) else None))
     else
       (case (if m = 0 then k pv (c # cs) else None) of
          Some r \<Rightarrow> Some r
        | None \<Rightarrow> (if p c \<and> mx \<noteq> Some 0
                   then rep p g (m - 1) (map_option (\<lambda>n. n - 1) mx) (Some c) cs k else None)))"

fun mt :: "ucd \<Rightarrow> flags \<Rightarrow> regex list \<Rightarrow> nat option \<Rightarrow> pystr \<Rightarrow> groups
    \<Rightarrow> (nat option \<Rightarrow> pystr \<Rightarrow> groups \<Rightarrow> 'r option) \<Rightarrow> 'r option" where
  "mt U F [] pv s gs k = k pv s gs"
| "mt U F (Rep c m mx g # rs) pv s gs k =
     rep (cls_mem U F c) g m mx pv s (\<lambda>pv' s'. mt U F rs pv' s' gs k)"
| "mt U F (Cap n body # rs) pv s gs k =
     mt U F body pv s gs
       (\<lambda>pv' s' gs'. mt U F rs pv' s' (gs'(n \<mapsto> take (length s - length s') s)) k)"
| "mt U F (Alt a b # rs) pv s gs k =
     (case mt U F a pv s gs (\<lambda>pv' s' gs'. mt U F rs pv' s' gs' k) of
        Some r \<Rightarrow> Some r
      | None \<Rightarrow> mt U F b pv s gs (\<lambda>pv' s' gs'. mt U F rs pv' s' gs' k))"
| "mt U F (Ref n # rs) pv s gs k =
     (case gs n of
        None \<Rightarrow> None
      | Some t \<Rightarrow>
          if take (length t) s = t
          then mt U F rs (if t = [] then pv else Some (last t)) (drop (length t) s) gs k
          else None)"
| "mt U F (Bol # rs) pv s gs k =
     (if pv = None \<or> (multiline F \<and> pv = Some 10) then mt U F rs pv s gs k else None)"
| "mt U F (Eol # rs) pv s gs k =
     (if (case s of [] \<Rightarrow> True | c # cs \<Rightarrow> c = 10 \<and> (multiline F \<or> cs = []))
      then mt U F rs pv s gs k else None)"

text \<open>
  One match attempt at the current position: the character before it, the rest of the
  text after the match and the groups of the match.
\<close>

definition match_at :: "ucd \<Rightarrow> pattern \<Rightarrow> nat option \<Rightarrow> pystr
    \<Rightarrow> (nat option \<times> pystr \<times> groups) option" where
  "match_at U re pv s =
     mt U (fst re) (snd re) pv s Map.empty (\<lambda>pv' s' gs'. Some (pv', s', gs'))"

text \<open>
  \<open>re.finditer\<close>: the matches from left to right, each search starting where the match
  before it ended, and one character further where no match starts. None of the four
  patterns below matches the empty string; for a pattern that does, the model records the
  empty match and moves on by one character.
\<close>

function finditer :: "ucd \<Rightarrow> pattern \<Rightarrow> nat option \<Rightarrow> pystr \<Rightarrow> groups list" where
  "finditer U re pv s =
     (case match_at U re pv s of
        Some (pv', s', gs) \<Rightarrow>
          if length s' < length s then gs # finditer U re pv' s'
          else gs # (case s of [] \<Rightarrow> [] | c # cs \<Rightarrow> finditer U re (Some c) cs)
      | None \<Rightarrow> (case s of [] \<Rightarrow> [] | c # cs \<Rightarrow> finditer U re (Some c) cs))"
  by pat_completeness auto
termination
  by (relation "measure (\<lambda>(U, re, pv, s). length s)") auto

text \<open>
  \<open>re.sub\<close> with a template made of one group reference (\<open>r"\1"\<close>): every match is
  replaced by the text of that group, empty when the group took no part in the match.
\<close>

function sub_template :: "ucd \<Rightarrow> pattern \<Rightarrow> string \<Rightarrow> nat option \<Rightarrow> pystr \<Rightarrow> pystr" where
  "sub_template U re n pv s =
     (case match_at U re pv s of
        Some (pv', s', gs) \<Rightarrow>
          (case gs n of None \<Rightarrow> [] | Some t \<Rightarrow> t) @
          (if length s' < length s then sub_template U re n pv' s'
           else (case s of [] \<Rightarrow> [] | c # cs \<Rightarrow> c # sub_template U re n (Some c) cs))
      | None \<Rightarrow> (case s of [] \<Rightarrow> [] | c # cs \<Rightarrow> c # sub_template U re n (Some c) cs))"
  by pat_completeness auto
termination
  by (relation "measure (\<lambda>(U, re, n, pv, s). length s)") auto

text \<open>
  \<open>re.sub\<close> with a function: every match is replaced by what the function returns for
  its groups; an exception of the function ends the substitution.
\<close>

function sub_function :: "ucd \<Rightarrow> pattern \<Rightarrow> (groups \<Rightarrow> error + pystr) \<Rightarrow> nat option \<Rightarrow> pystr
    \<Rightarrow> error + pystr" where
  "sub_function U re f pv s =
     (case match_at U re pv s of
        Some (pv', s', gs) \<Rightarrow>
          (case f gs of
             Inl e \<Rightarrow> Inl e
           | Inr t \<Rightarrow>
               (case (if length s' < length s then sub_function U re f pv' s'
                      else (case s of [] \<Rightarrow> Inr []
                            | c # cs \<Rightarrow> map_sum id ((#) c) (sub_function U re f (Some c) cs))) of
                  Inl e \<Rightarrow> Inl e
                | Inr r \<Rightarrow> Inr (t @ r)))
      | None \<Rightarrow>
          (case s of [] \<Rightarrow> Inr []
           | c # cs \<Rightarrow> map_sum id ((#) c) (sub_function U re f (Some c) cs)))"
  by pat_completeness auto
termination
  by (relation "measure (\<lambda>(U, re, f, pv, s). length s)") auto

section \<open>The patterns of the module\<close>

text \<open>
  \<open>env_re\<close>, compiled with \<open>MULTILINE | VERBOSE | DOTALL\<close> (in verbose mode the blanks and
  the \<open>#\<close> comments of the pattern are not part of it):
  \<^verbatim>\<open>^\s*(?P<name>[a-zA-Z_]+[a-zA-Z0-9_]*)\s*=\s*((?P<quote>["|']{1,3})\s*(?P<qvalue>.+?)\s*(?P=quote)[^'"\n]*|(?P<value>[^'"\n]+))\s*$\<close>
  The group without a name around the alternation is group 2.
\<close>

definition env_re :: pattern where
  "env_re = (\<lparr>multiline = True, dotall = True\<rparr>,
     [Bol, Star (OneOf [Space]),
      Cap ''name''
        [Plus (OneOf [Rng CHR ''a'' CHR ''z'', Rng CHR ''A'' CHR ''Z'', Chr CHR ''_'']),
         Star (OneOf [Rng CHR ''a'' CHR ''z'', Rng CHR ''A'' CHR ''Z'', Rng CHR ''0'' CHR ''9'',
                      Chr CHR ''_''])],
      Star (OneOf [Space]), Lit CHR ''='', Star (OneOf [Space]),
      Cap ''2''
        [Alt [Cap ''quote'' [Rep (OneOf [Chr CHR 0x22, Chr CHR ''|'', Chr CHR 0x27]) 1 (Some 3) True],
              Star (OneOf [Space]),
              Cap ''qvalue'' [Rep Dot 1 None False],
              Star (OneOf [Space]),
              Ref ''quote'',
              Star (NoneOf [Chr CHR 0x27, Chr CHR 0x22, Chr CHR 0x0A])]
             [Cap ''value'' [Plus (NoneOf [Chr CHR 0x27, Chr CHR 0x22, Chr CHR 0x0A])]]],
      Star (OneOf [Space]), Eol])"

text \<open>\<open>sub_re\<close>, without flags: \<^verbatim>\<open>[$]?{\s*(?P<name>[A-Za-z_]\w*)\s*}\<close>\<close>

definition sub_re :: pattern where
  "sub_re = (\<lparr>multiline = False, dotall = False\<rparr>,
     [Rep (OneOf [Chr CHR ''$'']) 0 (Some 1) True, Lit CHR ''{'', Star (OneOf [Space]),
      Cap ''name''
        [One (OneOf [Rng CHR ''A'' CHR ''Z'', Rng CHR ''a'' CHR ''z'', Chr CHR ''_'']),
         Star (OneOf [Word])],
      Star (OneOf [Space]), Lit CHR ''}''])"

text \<open>\<open>comment_re\<close>, without flags: \<^verbatim>\<open>(^|\s+)(#.+)$\<close>\<close>

definition comment_re :: pattern where
  "comment_re = (\<lparr>multiline = False, dotall = False\<rparr>,
     [Cap ''1'' [Alt [Bol] [Plus (OneOf [Space])]],
      Cap ''2'' [Lit CHR ''#'', Plus Dot],
      Eol])"

text \<open>\<open>escaped_quote_re\<close>, without flags: \<^verbatim>\<open>\\(['\"])\<close>\<close>

definition escaped_quote_re :: pattern where
  "escaped_quote_re = (\<lparr>multiline = False, dotall = False\<rparr>,
     [Lit CHR 0x5C, Cap ''1'' [One (OneOf [Chr CHR 0x27, Chr CHR 0x22])]])"

section \<open>The \<open>unicode_escape\<close> codec\<close>

text \<open>
  \<open>codecs.decode(value, "unicode_escape")\<close> on a \<open>str\<close> first takes the UTF-8 bytes of
  the string (which fails on a surrogate code point) and then decodes these bytes: a byte
  that is not a backslash stands for the code point of the same number, and a backslash
  starts an escape sequence. A backslash at the end, a \<open>\x\<close>, \<open>\u\<close> or \<open>\U\<close> with too few
  hexadecimal digits, a \<open>\U\<close> beyond U+10FFFF and a \<open>\N{...}\<close> that is malformed or names
  no character raise; an unknown escape sequence is kept as it is.
\<close>

definition utf8_char :: "nat \<Rightarrow> nat list" where
  "utf8_char c =
     (if c < 0x80 then [c]
      else if c < 0x800 then [0xC0 + c div 64, 0x80 + c mod 64]
      else if c < 0x10000 then [0xE0 + c div 4096, 0x80 + (c div 64) mod 64, 0x80 + c mod 64]
      else [0xF0 + c div 262144, 0x80 + (c div 4096) mod 64, 0x80 + (c div 64) mod 64,
            0x80 + c mod 64])"

fun utf8_encode :: "pystr \<Rightarrow> error + nat list" where
  "utf8_encode [] = Inr []"
| "utf8_encode (c # cs) =
     (if 0xD800 \<le> c \<and> c \<le> 0xDFFF then Inl UnicodeEncodeError
      else (case utf8_encode cs of Inl e \<Rightarrow> Inl e | Inr bs \<Rightarrow> Inr (utf8_char c @ bs)))"

definition hexdigit :: "nat \<Rightarrow> nat option" where
  "hexdigit c =
     (if 48 \<le> c \<and> c \<le> 57 then Some (c - 48)
      else if 97 \<le> c \<and> c \<le> 102 then Some (c - 87)
      else if 65 \<le> c \<and> c \<le> 70 then Some (c - 55)
      else None)"

fun hexescape :: "nat \<Rightarrow> nat \<Rightarrow> nat list \<Rightarrow> nat option" where
  "hexescape 0 ch s = Some ch"
| "hexescape (Suc n) ch [] = None"
| "hexescape (Suc n) ch (c # s) =
     (case hexdigit c of None \<Rightarrow> None | Some d \<Rightarrow> hexescape n (ch * 16 + d) s)"

definition isoctal :: "nat \<Rightarrow> bool" where
  "isoctal c = (48 \<le> c \<and> c \<le> 55)"

text \<open>How many more octal digits (at most two) follow the first one.\<close>

fun octal_more :: "nat list \<Rightarrow> nat" where
  "octal_more (a # b # s) = (if isoctal a then (if isoctal b then 2 else 1) else 0)"
| "octal_more [a] = (if isoctal a then 1 else 0)"
| "octal_more [] = 0"

definition octal_value :: "nat list \<Rightarrow> nat" where
  "octal_value ds = foldl (\<lambda>ch d. ch * 8 + (d - 48)) 0 ds"

definition emit :: "nat \<Rightarrow> error + pystr \<Rightarrow> error + pystr" where
  "emit c r = (case r of Inl e \<Rightarrow> Inl e | Inr t \<Rightarrow> Inr (c # t))"

fun escape_decode :: "ucd \<Rightarrow> nat list \<Rightarrow> error + pystr" where
  "escape_decode U [] = Inr []"
| "escape_decode U [c] = (if c = 92 then Inl UnicodeDecodeError else Inr [c])"
| "escape_decode U (c # e # s) =
     (if c \<noteq> 92 then emit c (escape_decode U (e # s))
      else if e = 10 then escape_decode U s
      else if e = 92 \<or> e = 39 \<or> e = 34 then emit e (escape_decode U s)
      else if e = of_char CHR ''b'' then emit 8 (escape_decode U s)
      else if e = of_char CHR ''f'' then emit 12 (escape_decode U s)
      else if e = of_char CHR ''t'' then emit 9 (escape_decode U s)
      else if e = of_char CHR ''n'' then emit 10 (escape_decode U s)
      else if e = of_char CHR ''r'' then emit 13 (escape_decode U s)
      else if e = of_char CHR ''v'' then emit 11 (escape_decode U s)
      else if e = of_char CHR ''a'' then emit 7 (escape_decode U s)
      else if isoctal e then
        emit (octal_value (e # take (octal_more s) s)) (escape_decode U (drop (octal_more s) s))
      else if e = of_char CHR ''x'' \<or> e = of_char CHR ''u'' \<or> e = of_char CHR ''U'' then
        (let count = (if e = of_char CHR ''x'' then 2 else if e = of_char CHR ''u'' then 4 else 8)
         in case hexescape count 0 s of
              None \<Rightarrow> Inl UnicodeDecodeError
            | Some ch \<Rightarrow>
                if ch > 0x10FFFF then Inl UnicodeDecodeError
                else emit ch (escape_decode U (drop count s)))
      else if e = of_char CHR ''N'' then
        (case s of
           [] \<Rightarrow> Inl UnicodeDecodeError
         | b # t \<Rightarrow>
             if b \<noteq> of_char CHR ''{'' then Inl UnicodeDecodeError
             else
               (let name = takeWhile (\<lambda>x. x \<noteq> of_char CHR ''}'') t
                in if length name = length t \<or> name = [] then Inl UnicodeDecodeError
                   else (case uc_getcode U name of
                           None \<Rightarrow> Inl UnicodeDecodeError
                         | Some ch \<Rightarrow>
                             if ch < 0x110000
                             then emit ch (escape_decode U (drop (length name + 2) s))
                             else Inl UnicodeDecodeError)))
      else emit 92 (emit e (escape_decode U s)))"

definition unicode_escape_decode :: "ucd \<Rightarrow> pystr \<Rightarrow> error + pystr" where
  "unicode_escape_decode U s =
     (case utf8_encode s of Inl e \<Rightarrow> Inl e | Inr bs \<Rightarrow> escape_decode U bs)"

section \<open>Substitution of environment variables\<close>

text \<open>
  The process environment \<open>os.environ\<close> is a map from names to values. A \<open>dict\<close> keeps
  its keys in the order of their first insertion, so \<open>env_vars\<close> is an association list
  and an assignment to a key that is present replaces the value where it stands.
\<close>

type_synonym environ = "pystr \<rightharpoonup> pystr"

type_synonym dict = "(pystr \<times> pystr) list"

fun dict_set :: "dict \<Rightarrow> pystr \<Rightarrow> pystr \<Rightarrow> dict" where
  "dict_set [] k v = [(k, v)]"
| "dict_set (kv # d) k v = (if fst kv = k then (k, v) # d else kv # dict_set d k v)"

text \<open>
  \<open>sub_func\<close>, the function local to \<open>sub_env\<close>. \<open>m.groupdict()["name"]\<close> is \<open>None\<close> for a
  group that took no part in the match, and \<open>None in os.environ\<close> raises.
\<close>

definition sub_func :: "environ \<Rightarrow> pystr \<Rightarrow> dict \<Rightarrow> groups \<Rightarrow> error + pystr" where
  "sub_func E missing_default kwargs m =
     (case m ''name'' of
        None \<Rightarrow> Inl TypeError
      | Some name \<Rightarrow>
          (case E name of
             Some v \<Rightarrow> Inr v
           | None \<Rightarrow>
               (case map_of kwargs name of
                  Some v \<Rightarrow> Inr v
                | None \<Rightarrow> Inr missing_default)))"

definition sub_env :: "ucd \<Rightarrow> environ \<Rightarrow> pystr \<Rightarrow> pystr \<Rightarrow> dict \<Rightarrow> error + pystr" where
  "sub_env U E string missing_default kwargs =
     sub_function U sub_re (sub_func E missing_default kwargs) None string"

text \<open>
  The call \<open>sub_env(value, **env_vars)\<close>. Python binds the keys of \<open>env_vars\<close> to the
  parameters of \<open>sub_env\<close> first: the key \<open>string\<close> collides with the positional argument
  and raises \<open>TypeError\<close>, the key \<open>missing_default\<close> sets that parameter, and the other
  keys make up \<open>kwargs\<close>.
\<close>

definition call_sub_env :: "ucd \<Rightarrow> environ \<Rightarrow> pystr \<Rightarrow> dict \<Rightarrow> error + pystr" where
  "call_sub_env U E v env_vars =
     (if py ''string'' \<in> fst ` set env_vars then Inl TypeError
      else sub_env U E v
             (case map_of env_vars (py ''missing_default'') of None \<Rightarrow> [] | Some d \<Rightarrow> d)
             (filter (\<lambda>kv. fst kv \<noteq> py ''missing_default'') env_vars))"

section \<open>\<open>parse_env_str\<close>\<close>

text \<open>
  The body of the loop over the matches of \<open>env_re\<close>: \<open>m\<close> is \<open>match.groupdict()\<close>, and a
  group that is \<open>None\<close> or empty is false in a condition. \<open>group_text\<close> reads a group
  after such a test has found it set.
\<close>

definition truthy :: "pystr option \<Rightarrow> bool" where
  "truthy v = (case v of None \<Rightarrow> False | Some t \<Rightarrow> t \<noteq> [])"

definition group_text :: "pystr option \<Rightarrow> pystr" where
  "group_text v = (case v of None \<Rightarrow> [] | Some t \<Rightarrow> t)"

definition parse_match :: "ucd \<Rightarrow> environ \<Rightarrow> bool \<Rightarrow> dict \<Rightarrow> groups \<Rightarrow> error + dict" where
  "parse_match U E strip_values env_vars m =
     (case m ''name'' of
        None \<Rightarrow> Inl TypeError
      | Some name \<Rightarrow>
          if truthy (m ''value'') then
            (let v = py_strip U (group_text (m ''value''));
                 v = sub_template U comment_re ''1'' None v
             in case call_sub_env U E v env_vars of
                  Inl e \<Rightarrow> Inl e
                | Inr v \<Rightarrow> Inr (dict_set env_vars name (if strip_values then py_strip U v else v)))
          else if truthy (m ''qvalue'') then
            (let v = group_text (m ''qvalue'');
                 v = sub_template U escaped_quote_re ''1'' None v
             in case m ''quote'' of
                  None \<Rightarrow> Inl TypeError
                | Some quote \<Rightarrow>
                    if 34 \<in> set quote then
                      (case unicode_escape_decode U v of
                         Inl e \<Rightarrow> Inl e
                       | Inr v \<Rightarrow>
                           (case call_sub_env U E v env_vars of
                              Inl e \<Rightarrow> Inl e
                            | Inr v \<Rightarrow> Inr (dict_set env_vars name v)))
                    else Inr (dict_set env_vars name v))
          else Inl NotImplementedError)"

fun parse_matches :: "ucd \<Rightarrow> environ \<Rightarrow> bool \<Rightarrow> dict \<Rightarrow> groups list \<Rightarrow> error + dict" where
  "parse_matches U E strip_values env_vars [] = Inr env_vars"
| "parse_matches U E strip_values env_vars (m # ms) =
     (case parse_match U E strip_values env_vars m of
        Inl e \<Rightarrow> Inl e
      | Inr env_vars' \<Rightarrow> parse_matches U E strip_values env_vars' ms)"

definition parse_env_str :: "ucd \<Rightarrow> environ \<Rightarrow> pystr \<Rightarrow> bool \<Rightarrow> error + dict" where
  "parse_env_str U E string strip_values =
     parse_matches U E strip_values [] (finditer U env_re None string)"

section \<open>\<open>load_env\<close>\<close>

text \<open>
  The file system is what \<open>Path(filepath).read_text()\<close> gives for each path: the text,
  or the exception it raises. \<open>os.environ[name] = value\<close> raises for a value that has a
  NUL character or a surrogate that the file system encoding cannot escape; the names
  come from \<open>env_re\<close> and are ASCII identifiers. \<open>load_env\<close> returns its result (or the
  exception that leaves it), the process environment afterwards and the log records.
\<close>

datatype 'p log_record =
    Error_could_not_find 'p
  | Debug_substituted pystr pystr
  | Debug_substituted_count nat 'p

definition environ_set :: "environ \<Rightarrow> pystr \<Rightarrow> pystr \<Rightarrow> error + environ" where
  "environ_set E name v =
     (if \<exists>c \<in> set v. 0xD800 \<le> c \<and> c \<le> 0xDFFF \<and> \<not> (0xDC80 \<le> c \<and> c \<le> 0xDCFF)
      then Inl UnicodeEncodeError
      else if 0 \<in> set v then Inl ValueError
      else Inr (E(name \<mapsto> v)))"

fun load_items :: "bool \<Rightarrow> dict \<Rightarrow> nat \<Rightarrow> environ \<Rightarrow> 'p log_record list
    \<Rightarrow> (error + nat) \<times> environ \<times> 'p log_record list" where
  "load_items overwrite [] count E lg = (Inr count, E, lg)"
| "load_items overwrite ((name, v) # items) count E lg =
     (if E name \<noteq> None \<and> \<not> overwrite then load_items overwrite items count E lg
      else (case environ_set E name v of
              Inl e \<Rightarrow> (Inl e, E, lg)
            | Inr E' \<Rightarrow>
                load_items overwrite items (count + 1) E' (lg @ [Debug_substituted name v])))"

definition load_env :: "ucd \<Rightarrow> ('p \<Rightarrow> error + pystr) \<Rightarrow> 'p \<Rightarrow> bool \<Rightarrow> bool \<Rightarrow> environ
    \<Rightarrow> (error + nat) \<times> environ \<times> 'p log_record list" where
  "load_env U fs filepath overwrite strip_values E =
     (case fs filepath of
        Inl e \<Rightarrow>
          if e = FileNotFoundError then (Inr 0, E, [Error_could_not_find filepath])
          else (Inl e, E, [])
      | Inr string \<Rightarrow>
          (case parse_env_str U E string strip_values of
             Inl e \<Rightarrow> (Inl e, E, [])
           | Inr env_vars \<Rightarrow>
               (case load_items overwrite env_vars 0 E [] of
                  (Inl e, E', lg) \<Rightarrow> (Inl e, E', lg)
                | (Inr count, E', lg) \<Rightarrow>
                    (Inr count, E', lg @ [Debug_substituted_count count filepath]))))"

section \<open>Names, and a sample Unicode database\<close>

text \<open>
  The names that \<open>env_re\<close> accepts on the left of \<open>=\<close> (\<open>[a-zA-Z_]+[a-zA-Z0-9_]*\<close>) and the
  names that \<open>sub_re\<close> accepts between braces (\<open>[A-Za-z_]\w*\<close>).
\<close>

definition name_start :: "nat \<Rightarrow> bool" where
  "name_start c = ((65 \<le> c \<and> c \<le> 90) \<or> (97 \<le> c \<and> c \<le> 122) \<or> c = 95)"

definition name_char :: "nat \<Rightarrow> bool" where
  "name_char c = (name_start c \<or> (48 \<le> c \<and> c \<le> 57))"

definition env_name :: "pystr \<Rightarrow> bool" where
  "env_name n = (case n of [] \<Rightarrow> False | c # cs \<Rightarrow> name_start c \<and> list_all name_char cs)"

definition sub_name :: "ucd \<Rightarrow> pystr \<Rightarrow> bool" where
  "sub_name U n =
     (case n of [] \<Rightarrow> False
      | c # cs \<Rightarrow> name_start c \<and> list_all (\<lambda>x. py_isalnum U x \<or> x = 95) cs)"

text \<open>
  A database that knows no whitespace, letter, digit or character name beyond ASCII,
  used where a theorem is applied to a concrete input.
\<close>

definition ucd_ascii :: ucd where
  "ucd_ascii = \<lparr>uc_isspace = (\<lambda>c. False), uc_isalnum = (\<lambda>c. False), uc_getcode = (\<lambda>n. None)\<rparr>"

section \<open>What a pattern matches\<close>

text \<open>
  The matches of a pattern, without the order in which the search tries them:
  \<open>sem U F rs pv gs w rest gs'\<close> says that \<open>rs\<close> can match the word \<open>w\<close> when \<open>pv\<close> is the
  character before it, \<open>rest\<close> the text after it and \<open>gs\<close> the groups so far, and that
  the groups are \<open>gs'\<close> afterwards. \<open>after pv w\<close> is the character before the position
  that follows \<open>w\<close>.
\<close>

definition after :: "nat option \<Rightarrow> pystr \<Rightarrow> nat option" where
  "after pv w = (if w = [] then pv else Some (last w))"

fun sem :: "ucd \<Rightarrow> flags \<Rightarrow> regex list \<Rightarrow> nat option \<Rightarrow> groups \<Rightarrow> pystr \<Rightarrow> pystr \<Rightarrow> groups
    \<Rightarrow> bool" where
  "sem U F [] pv gs w rest gs' = (w = [] \<and> gs' = gs)"
| "sem U F (Rep c m mx g # rs) pv gs w rest gs' =
     (\<exists>xs w'. w = xs @ w' \<and> m \<le> length xs \<and> (\<forall>b. mx = Some b \<longrightarrow> length xs \<le> b) \<and>
        (\<forall>x \<in> set xs. cls_mem U F c x) \<and> sem U F rs (after pv xs) gs w' rest gs')"
| "sem U F (Cap n body # rs) pv gs w rest gs' =
     (\<exists>w1 w2 gs1. w = w1 @ w2 \<and> sem U F body pv gs w1 (w2 @ rest) gs1 \<and>
        sem U F rs (after pv w1) (gs1(n \<mapsto> w1)) w2 rest gs')"
| "sem U F (Alt a b # rs) pv gs w rest gs' =
     (\<exists>w1 w2 gs1. w = w1 @ w2 \<and>
        (sem U F a pv gs w1 (w2 @ rest) gs1 \<or> sem U F b pv gs w1 (w2 @ rest) gs1) \<and>
        sem U F rs (after pv w1) gs1 w2 rest gs')"
| "sem U F (Ref n # rs) pv gs w rest gs' =
     (\<exists>t w'. gs n = Some t \<and> w = t @ w' \<and> sem U F rs (after pv t) gs w' rest gs')"
| "sem U F (Bol # rs) pv gs w rest gs' =
     ((pv = None \<or> (multiline F \<and> pv = Some 10)) \<and> sem U F rs pv gs w rest gs')"
| "sem U F (Eol # rs) pv gs w rest gs' =
     ((case w @ rest of [] \<Rightarrow> True | c # cs \<Rightarrow> c = 10 \<and> (multiline F \<or> cs = [])) \<and>
      sem U F rs pv gs w rest gs')"

section \<open>Properties of the matcher\<close>

lemma after_Nil [simp]: "after pv [] = pv"
  by (simp add: after_def)

lemma after_append [simp]: "after (after pv xs) ys = after pv (xs @ ys)"
  by (simp add: after_def)

lemma after_Cons: "after (Some x) xs = after pv (x # xs)"
  by (simp add: after_def)

text \<open>A repetition that succeeds has consumed a run of the class and handed the rest on.\<close>

lemma rep_sound:
  "rep p g m mx pv s k = Some r \<Longrightarrow>
   \<exists>xs ys. s = xs @ ys \<and> m \<le> length xs \<and> (\<forall>b. mx = Some b \<longrightarrow> length xs \<le> b) \<and>
     (\<forall>c \<in> set xs. p c) \<and> k (after pv xs) ys = Some r"
proof (induction s arbitrary: m mx pv)
  case Nil
  then show ?case by (auto split: if_splits)
next
  case (Cons c cs)
  let ?G = "\<exists>xs ys. c # cs = xs @ ys \<and> m \<le> length xs \<and> (\<forall>b. mx = Some b \<longrightarrow> length xs \<le> b) \<and>
     (\<forall>c \<in> set xs. p c) \<and> k (after pv xs) ys = Some r"
  have stop: ?G if "m = 0" "k pv (c # cs) = Some r"
    using that by (intro exI[of _ "[]"] exI[of _ "c # cs"]) simp
  have more: ?G
    if h: "p c" "mx \<noteq> Some 0"
      "rep p g (m - 1) (map_option (\<lambda>n. n - 1) mx) (Some c) cs k = Some r"
  proof -
    from Cons.IH[OF h(3)] obtain xs ys where x: "cs = xs @ ys" "m - 1 \<le> length xs"
      "\<forall>c \<in> set xs. p c" "\<forall>b. map_option (\<lambda>n. n - 1) mx = Some b \<longrightarrow> length xs \<le> b"
      "k (after (Some c) xs) ys = Some r" by blast
    show ?thesis
      using x h(1,2)
      by (intro exI[of _ "c # xs"] exI[of _ ys]) (auto simp: le_diff_conv after_def)
  qed
  from Cons.prems have "(m = 0 \<and> k pv (c # cs) = Some r) \<or>
    (p c \<and> mx \<noteq> Some 0 \<and> rep p g (m - 1) (map_option (\<lambda>n. n - 1) mx) (Some c) cs k = Some r)"
    by (auto split: if_splits option.splits)
  then show ?case using stop more by blast
qed

lemma rep_max_zero: "rep p g 0 (Some 0) pv s k = k pv s"
  by (cases s) (auto split: option.splits)

text \<open>
  A greedy repetition in front of a run of its class that ends the text, or that a
  character outside the class follows, takes the whole run when what follows the
  repetition in the pattern matches there.
\<close>

lemma rep_greedy_run:
  assumes "\<forall>c \<in> set xs. p c" "ys = [] \<or> \<not> p (hd ys)" "k (after pv xs) ys \<noteq> None"
  shows "rep p True 0 None pv (xs @ ys) k = k (after pv xs) ys"
  using assms
proof (induction xs arbitrary: pv)
  case Nil
  then show ?case by (cases ys) auto
next
  case (Cons x xs)
  have a: "after (Some x) xs = after pv (x # xs)" by (simp add: after_def)
  with Cons.prems have "k (after (Some x) xs) ys \<noteq> None" by simp
  with Cons.IH[of "Some x"] Cons.prems(1,2)
  have "rep p True 0 None (Some x) (xs @ ys) k = k (after (Some x) xs) ys" by simp
  with Cons.prems(1,3) a show ?case by (auto split: option.splits)
qed

text \<open>Every result of the search is a match in the sense of \<open>sem\<close>.\<close>

lemma mt_sound:
  "mt U F rs pv s gs k = Some r \<Longrightarrow>
   \<exists>w rest gs'. s = w @ rest \<and> sem U F rs pv gs w rest gs' \<and> k (after pv w) rest gs' = Some r"
proof (induction U F rs pv s gs k arbitrary: r rule: mt.induct)
  case (1 U F pv s gs k)
  then show ?case by simp
next
  case (2 U F c m mx g rs pv s gs k)
  from rep_sound[OF "2.prems"[simplified]] obtain xs ys where
    x: "s = xs @ ys" "m \<le> length xs" "\<forall>b. mx = Some b \<longrightarrow> length xs \<le> b"
       "\<forall>x \<in> set xs. cls_mem U F c x"
       "mt U F rs (after pv xs) ys gs k = Some r" by blast
  from "2.IH"[OF x(5)] obtain w rest gs' where
    y: "ys = w @ rest" "sem U F rs (after pv xs) gs w rest gs'"
       "k (after (after pv xs) w) rest gs' = Some r"
    by blast
  have "sem U F (Rep c m mx g # rs) pv gs (xs @ w) rest gs'"
    unfolding sem.simps using x(2-4) y(2) by blast
  with x(1) y(1,3) show ?case
    by (intro exI[of _ "xs @ w"] exI[of _ rest] exI[of _ gs']) simp
next
  case (3 U F n body rs pv s gs k)
  from "3.IH"(2)[OF "3.prems"[simplified]] obtain w1 r1 gs1 where
    a: "s = w1 @ r1" "sem U F body pv gs w1 r1 gs1"
       "mt U F rs (after pv w1) r1 (gs1(n \<mapsto> take (length s - length r1) s)) k = Some r"
    by blast
  from a(1) have tk: "take (length s - length r1) s = w1" by simp
  from "3.IH"(1)[OF a(3)] obtain w2 rest gs' where
    b: "r1 = w2 @ rest" "sem U F rs (after pv w1) (gs1(n \<mapsto> w1)) w2 rest gs'"
       "k (after (after pv w1) w2) rest gs' = Some r" unfolding tk by blast
  have "sem U F (Cap n body # rs) pv gs (w1 @ w2) rest gs'"
    unfolding sem.simps using a(2) b(1,2) by blast
  with a(1) b(1,3) show ?case
    by (intro exI[of _ "w1 @ w2"] exI[of _ rest] exI[of _ gs']) simp
next
  case (4 U F a b rs pv s gs k)
  let ?k = "\<lambda>pv' s' gs'. mt U F rs pv' s' gs' k"
  have "\<exists>w1 r1 gs1. s = w1 @ r1 \<and> (sem U F a pv gs w1 r1 gs1 \<or> sem U F b pv gs w1 r1 gs1) \<and>
       mt U F rs (after pv w1) r1 gs1 k = Some r"
  proof (cases "mt U F a pv s gs ?k")
    case None
    with "4.prems" have "mt U F b pv s gs ?k = Some r" by simp
    from "4.IH"(4)[OF None this] show ?thesis by blast
  next
    case (Some r')
    with "4.prems" have "mt U F a pv s gs ?k = Some r" by simp
    from "4.IH"(2)[OF this] show ?thesis by blast
  qed
  then obtain w1 r1 gs1 where
    a: "s = w1 @ r1" "sem U F a pv gs w1 r1 gs1 \<or> sem U F b pv gs w1 r1 gs1"
       "mt U F rs (after pv w1) r1 gs1 k = Some r" by blast
  from "4.IH"(1)[OF a(3)] obtain w2 rest gs' where
    b: "r1 = w2 @ rest" "sem U F rs (after pv w1) gs1 w2 rest gs'"
       "k (after (after pv w1) w2) rest gs' = Some r" by blast
  have "sem U F (Alt a b # rs) pv gs (w1 @ w2) rest gs'"
    unfolding sem.simps using a(2) b(1,2) by blast
  with a(1) b(1,3) show ?case
    by (intro exI[of _ "w1 @ w2"] exI[of _ rest] exI[of _ gs']) simp
next
  case (5 U F n rs pv s gs k)
  from "5.prems" obtain t where
    t: "gs n = Some t" "take (length t) s = t"
       "mt U F rs (if t = [] then pv else Some (last t)) (drop (length t) s) gs k = Some r"
    by (auto split: option.splits if_splits)
  from t(2) have s: "s = t @ drop (length t) s" by (metis append_take_drop_id)
  from "5.IH"[OF t] obtain w rest gs' where
    b: "drop (length t) s = w @ rest" "sem U F rs (after pv t) gs w rest gs'"
       "k (after (after pv t) w) rest gs' = Some r" unfolding after_def[symmetric] by blast
  have "sem U F (Ref n # rs) pv gs (t @ w) rest gs'"
    unfolding sem.simps using t(1) b(2) by blast
  moreover have "s = (t @ w) @ rest" using s b(1) by simp
  ultimately show ?case using b(3)
    by (intro exI[of _ "t @ w"] exI[of _ rest] exI[of _ gs']) simp
next
  case (6 U F rs pv s gs k)
  from "6.prems" have c: "pv = None \<or> (multiline F \<and> pv = Some 10)"
    and m: "mt U F rs pv s gs k = Some r"
    by (auto split: if_splits)
  from "6.IH"[OF c m] c show ?case by auto
next
  case (7 U F rs pv s gs k)
  from "7.prems" have c: "(case s of [] \<Rightarrow> True | c # cs \<Rightarrow> c = 10 \<and> (multiline F \<or> cs = []))"
    and m: "mt U F rs pv s gs k = Some r"
    by (auto split: if_splits)
  from "7.IH"[OF c m] c show ?case by auto
qed

lemma match_at_sem:
  assumes "match_at U re pv s = Some (pv', s', gs)"
  obtains w where "s = w @ s'" "sem U (fst re) (snd re) pv Map.empty w s' gs"
proof -
  from assms obtain w rest gs' where "s = w @ rest"
    "sem U (fst re) (snd re) pv Map.empty w rest gs'"
    "Some (after pv w, rest, gs') = Some (pv', s', gs)"
    unfolding match_at_def
    using mt_sound[of U "fst re" "snd re" pv s Map.empty "\<lambda>pv' s' gs'. Some (pv', s', gs')"]
    by blast
  then show ?thesis using that by simp
qed

lemma sem_NilE:
  assumes "sem U F [] pv gs w rest gs'"
  obtains "w = []" "gs' = gs"
  using assms by simp

lemma sem_RepE:
  assumes "sem U F (Rep c m mx g # rs) pv gs w rest gs'"
  obtains xs w' where "w = xs @ w'" "m \<le> length xs" "\<forall>b. mx = Some b \<longrightarrow> length xs \<le> b"
    "\<forall>x \<in> set xs. cls_mem U F c x" "sem U F rs (after pv xs) gs w' rest gs'"
  using assms unfolding sem.simps by blast

lemma sem_CapE:
  assumes "sem U F (Cap n body # rs) pv gs w rest gs'"
  obtains w1 w2 gs1 where "w = w1 @ w2" "sem U F body pv gs w1 (w2 @ rest) gs1"
    "sem U F rs (after pv w1) (gs1(n \<mapsto> w1)) w2 rest gs'"
  using assms unfolding sem.simps by blast

lemma sem_AltE:
  assumes "sem U F (Alt a b # rs) pv gs w rest gs'"
  obtains (left) w1 w2 gs1 where "w = w1 @ w2" "sem U F a pv gs w1 (w2 @ rest) gs1"
    "sem U F rs (after pv w1) gs1 w2 rest gs'"
  | (right) w1 w2 gs1 where "w = w1 @ w2" "sem U F b pv gs w1 (w2 @ rest) gs1"
    "sem U F rs (after pv w1) gs1 w2 rest gs'"
  using assms unfolding sem.simps by blast

lemma sem_RefE:
  assumes "sem U F (Ref n # rs) pv gs w rest gs'"
  obtains t w' where "gs n = Some t" "w = t @ w'" "sem U F rs (after pv t) gs w' rest gs'"
  using assms unfolding sem.simps by blast

lemma sem_BolE:
  assumes "sem U F (Bol # rs) pv gs w rest gs'"
  obtains "pv = None \<or> (multiline F \<and> pv = Some 10)" "sem U F rs pv gs w rest gs'"
  using assms by simp

lemma sem_EolE:
  assumes "sem U F (Eol # rs) pv gs w rest gs'"
  obtains "case w @ rest of [] \<Rightarrow> True | c # cs \<Rightarrow> c = 10 \<and> (multiline F \<or> cs = [])"
    "sem U F rs pv gs w rest gs'"
  using assms by simp

lemmas semE = sem_NilE sem_RepE sem_CapE sem_AltE sem_RefE sem_BolE sem_EolE


lemma env_re_groups:
  assumes "match_at U env_re pv s = Some (pv', s', gs)"
  shows "gs ''name'' \<noteq> None \<and>
     (truthy (gs ''value'') \<or> truthy (gs ''qvalue'') \<and> gs ''quote'' \<noteq> None) \<and>
     length s' < length s"
proof -
  from assms obtain w where w: "s = w @ s'" "sem U (fst env_re) (snd env_re) pv Map.empty w s' gs"
    by (rule match_at_sem)
  from w(2) have "gs ''name'' \<noteq> None \<and>
     (truthy (gs ''value'') \<or> truthy (gs ''qvalue'') \<and> gs ''quote'' \<noteq> None) \<and> w \<noteq> []"
    unfolding env_re_def fst_conv snd_conv
    by (elim semE) (auto simp: truthy_def)
  with w(1) show ?thesis by simp
qed

section \<open>Evaluation on concrete text\<close>

lemmas eval_defs =
  py_def env_re_def sub_re_def comment_re_def escaped_quote_re_def match_at_def
  py_isspace_def py_isalnum_def parse_env_str_def parse_match_def truthy_def group_text_def
  call_sub_env_def sub_env_def sub_func_def py_strip_def unicode_escape_decode_def
  utf8_char_def emit_def isoctal_def hexdigit_def octal_value_def ucd_ascii_def

section \<open>Substitution\<close>

lemma match_sub_re_Nil: "match_at U sub_re pv [] = None"
  by (simp add: match_at_def sub_re_def)

text \<open>A placeholder with a name of \<open>sub_re\<close> is matched as a whole, with or without \<open>$\<close>.\<close>

lemma match_sub_re_placeholder:
  assumes "sub_name U n"
  shows "match_at U sub_re pv (36 # 123 # n @ [125]) = Some (Some 125, [], [''name'' \<mapsto> n])"
    and "match_at U sub_re pv (123 # n @ [125]) = Some (Some 125, [], [''name'' \<mapsto> n])"
proof -
  from assms obtain c cs where n: "n = c # cs" and c: "name_start c"
    and cs: "\<forall>x \<in> set cs. py_isalnum U x \<or> x = 95"
    by (auto simp: sub_name_def list_all_iff split: list.splits)
  have nsp: "\<not> py_isspace U c" using c by (auto simp: name_start_def py_isspace_def)
  have w: "\<forall>x \<in> set cs. cls_mem U \<lparr>multiline = False, dotall = False\<rparr> (OneOf [Word]) x"
    using cs by simp
  show "match_at U sub_re pv (36 # 123 # n @ [125]) = Some (Some 125, [], [''name'' \<mapsto> n])"
    using c nsp
    by (simp add: n match_at_def sub_re_def rep_max_zero name_start_def rep_greedy_run[OF w]
        py_isalnum_def py_isspace_def after_def)
  show "match_at U sub_re pv (123 # n @ [125]) = Some (Some 125, [], [''name'' \<mapsto> n])"
    using c nsp
    by (simp add: n match_at_def sub_re_def rep_max_zero name_start_def rep_greedy_run[OF w]
        py_isalnum_def py_isspace_def after_def)
qed

lemma sub_env_placeholder:
  assumes "sub_name U n"
  shows "sub_env U E (py ''${'' @ n @ py ''}'') d kwargs =
           Inr (case E n of Some v \<Rightarrow> v
                | None \<Rightarrow> (case map_of kwargs n of Some v \<Rightarrow> v | None \<Rightarrow> d))"
    and "sub_env U E (py ''{'' @ n @ py ''}'') d kwargs =
           Inr (case E n of Some v \<Rightarrow> v
                | None \<Rightarrow> (case map_of kwargs n of Some v \<Rightarrow> v | None \<Rightarrow> d))"
  using match_sub_re_placeholder[OF assms, of None]
  by (simp_all add: sub_env_def py_def match_sub_re_Nil sub_func_def split: option.splits)

lemma call_sub_env_plain:
  assumes "py ''string'' \<notin> fst ` set env_vars" "map_of env_vars (py ''missing_default'') = None"
  shows "call_sub_env U E v env_vars = sub_env U E v [] env_vars"
proof -
  from assms(2) have "\<forall>kv \<in> set env_vars. fst kv \<noteq> py ''missing_default''"
    by (metis map_of_eq_None_iff image_eqI)
  then have "filter (\<lambda>kv. fst kv \<noteq> py ''missing_default'') env_vars = env_vars"
    by (simp add: filter_id_conv)
  with assms show ?thesis by (simp add: call_sub_env_def)
qed

text \<open>
  Where the file has set neither \<open>string\<close> nor \<open>missing_default\<close>, the precedence is that
  of \<open>sub_env\<close> with the empty default: with \<open>FOO=live\<close> in the process environment, the
  file \<open>FOO=filedefault\<close>, \<open>BAR=${FOO}\<close> resolves \<open>BAR\<close> to \<open>live\<close>.
\<close>

lemma precedence_example:
  assumes "E (py ''FOO'') = Some (py ''live'')"
  shows "parse_env_str U E (py ''FOO=filedefault'' @ NL @ py ''BAR=${FOO}'') True =
           Inr [(py ''FOO'', py ''filedefault''), (py ''BAR'', py ''live'')]"
  using assms by (simp add: eval_defs)

section \<open>The claims\<close>

text \<open>
  C1. Substitution precedence, where the code departs from it. The call
  \<open>sub_env(value, **env_vars)\<close> hands the variables of the file over as keyword arguments,
  so a variable of the file called \<open>string\<close> or \<open>missing_default\<close> is bound to the
  parameter of \<open>sub_env\<close> of that name. After \<open>string=abc\<close>, resolving \<open>X=${string}\<close> raises
  \<open>TypeError\<close>, in every process environment, where the value resolved earlier in the
  file is \<open>abc\<close>; after \<open>missing_default=zzz\<close>, the placeholder of a name that is found
  nowhere is replaced by \<open>zzz\<close>, where the default is the empty string.
\<close>

theorem substitution_keyword_clash:
  "parse_env_str U E (py ''string=abc'' @ NL @ py ''X=${string}'') sv = Inl TypeError \<and>
   parse_env_str U Map.empty (py ''missing_default=zzz'' @ NL @ py ''X=${NOPE}'') sv =
     Inr [(py ''missing_default'', py ''zzz''), (py ''X'', py ''zzz'')]"
  by (cases sv) (simp_all add: eval_defs)

lemma hexescape_eval:
  "hexescape n ch s =
     (if n = 0 then Some ch
      else (case s of [] \<Rightarrow> None
            | c # s' \<Rightarrow> (case hexdigit c of None \<Rightarrow> None
                         | Some d \<Rightarrow> hexescape (n - 1) (ch * 16 + d) s')))"
  by (cases n; cases s) (auto split: option.splits)

text \<open>
  The entries are resolved one at a time in the order of the file: resolving the matches
  \<open>ms\<close> and then \<open>m\<close> is resolving \<open>m\<close> against the result of \<open>ms\<close>. For the file \<open>A=1\<close>,
  \<open>B=${A}2\<close>, with \<open>A\<close> not set in the process environment, \<open>B\<close> resolves to \<open>12\<close>.
\<close>

lemma parse_matches_snoc:
  "parse_matches U E sv env_vars (ms @ [m]) =
     (case parse_matches U E sv env_vars ms of
        Inl e \<Rightarrow> Inl e
      | Inr env_vars' \<Rightarrow> parse_match U E sv env_vars' m)"
  by (induction ms arbitrary: env_vars) (auto split: sum.splits)

lemma order_example:
  assumes "E (py ''A'') = None"
  shows "parse_env_str U E (py ''A=1'' @ NL @ py ''B=${A}2'') True =
           Inr [(py ''A'', py ''1''), (py ''B'', py ''12'')]"
  using assms by (simp add: eval_defs)

text \<open>
  C2. Order dependency, where the code departs from it. Once the file has set a variable
  called \<open>string\<close>, no later substitution sees the values resolved before it: the call
  \<open>sub_env(value, **env_vars)\<close> raises \<open>TypeError\<close>. In the file \<open>A=1\<close>, \<open>string=x\<close>,
  \<open>B=${A}2\<close> the entry \<open>B\<close> is not resolved to \<open>12\<close>; \<open>parse_env_str\<close> raises, in every
  process environment.
\<close>

theorem order_dependency_keyword_clash:
  "parse_env_str U E (py ''A=1'' @ NL @ py ''string=x'' @ NL @ py ''B=${A}2'') sv =
     Inl TypeError"
  by (cases sv) (simp_all add: eval_defs)

text \<open>
  C5. A double-quoted value has its escaped quotes unescaped, then its escape sequences
  decoded, then its placeholders substituted: \<open>NAME="a\nb"\<close> gives \<open>a\<close>, a newline
  character and \<open>b\<close>. The order shows in two more files: in \<open>NAME="\x5c"x"\<close> the backslash
  that decoding produces is not taken for the escape of the quote after it, and in
  \<open>NAME="{A}\t"\<close> the backslash in the value of \<open>A\<close> is not decoded.
\<close>

theorem double_quoted_pipeline:
  "parse_env_str U E (py ''NAME='' @ DQ @ py ''a'' @ BSL @ py ''nb'' @ DQ) sv =
     Inr [(py ''NAME'', py ''a'' @ NL @ py ''b'')] \<and>
   (m ''name'' = Some n \<and> \<not> truthy (m ''value'') \<and> m ''qvalue'' = Some q \<and> q \<noteq> [] \<and>
    m ''quote'' = Some qt \<and> 34 \<in> set qt \<longrightarrow>
      parse_match U E sv env_vars m =
        (case unicode_escape_decode U (sub_template U escaped_quote_re ''1'' None q) of
           Inl e \<Rightarrow> Inl e
         | Inr v \<Rightarrow>
             (case call_sub_env U E v env_vars of
                Inl e \<Rightarrow> Inl e
              | Inr v' \<Rightarrow> Inr (dict_set env_vars n v')))) \<and>
   parse_env_str U E (py ''NAME='' @ DQ @ BSL @ py ''x5c'' @ DQ @ py ''x'' @ DQ) sv =
     Inr [(py ''NAME'', BSL @ DQ @ py ''x'')] \<and>
   (E (py ''A'') = Some (BSL @ py ''n'') \<longrightarrow>
      parse_env_str U E (py ''NAME='' @ DQ @ py ''{A}'' @ BSL @ py ''t'' @ DQ) sv =
        Inr [(py ''NAME'', BSL @ py ''n'' @ TAB)])"
proof (intro conjI impI)
  show "parse_env_str U E (py ''NAME='' @ DQ @ py ''a'' @ BSL @ py ''nb'' @ DQ) sv =
     Inr [(py ''NAME'', py ''a'' @ NL @ py ''b'')]"
    by (simp add: eval_defs)
next
  assume "m ''name'' = Some n \<and> \<not> truthy (m ''value'') \<and> m ''qvalue'' = Some q \<and> q \<noteq> [] \<and>
    m ''quote'' = Some qt \<and> 34 \<in> set qt"
  then show "parse_match U E sv env_vars m =
        (case unicode_escape_decode U (sub_template U escaped_quote_re ''1'' None q) of
           Inl e \<Rightarrow> Inl e
         | Inr v \<Rightarrow>
             (case call_sub_env U E v env_vars of
                Inl e \<Rightarrow> Inl e
              | Inr v' \<Rightarrow> Inr (dict_set env_vars n v')))"
    by (simp add: parse_match_def truthy_def group_text_def)
next
  show "parse_env_str U E (py ''NAME='' @ DQ @ BSL @ py ''x5c'' @ DQ @ py ''x'' @ DQ) sv =
     Inr [(py ''NAME'', BSL @ DQ @ py ''x'')]"
    by (simp add: eval_defs hexescape_eval)
next
  assume "E (py ''A'') = Some (BSL @ py ''n'')"
  then show "parse_env_str U E (py ''NAME='' @ DQ @ py ''{A}'' @ BSL @ py ''t'' @ DQ) sv =
        Inr [(py ''NAME'', BSL @ py ''n'' @ TAB)]"
    by (simp add: eval_defs)
qed

theorem double_quoted_pipeline_witness:
  "[''name'' \<mapsto> py ''NAME'', ''quote'' \<mapsto> DQ, ''qvalue'' \<mapsto> py ''a'' @ BSL @ py ''nb'']
      ''name'' = Some (py ''NAME'') \<and>
   \<not> truthy ([''name'' \<mapsto> py ''NAME'', ''quote'' \<mapsto> DQ, ''qvalue'' \<mapsto> py ''a'' @ BSL @ py ''nb'']
      ''value'') \<and>
   parse_match ucd_ascii Map.empty True []
     [''name'' \<mapsto> py ''NAME'', ''quote'' \<mapsto> DQ, ''qvalue'' \<mapsto> py ''a'' @ BSL @ py ''nb''] =
     Inr [(py ''NAME'', py ''a'' @ NL @ py ''b'')] \<and>
   [py ''A'' \<mapsto> BSL @ py ''n''] (py ''A'') = Some (BSL @ py ''n'') \<and>
   parse_env_str ucd_ascii [py ''A'' \<mapsto> BSL @ py ''n'']
     (py ''NAME='' @ DQ @ py ''{A}'' @ BSL @ py ''t'' @ DQ) True =
     Inr [(py ''NAME'', BSL @ py ''n'' @ TAB)]"
  using double_quoted_pipeline[of ucd_ascii "[py ''A'' \<mapsto> BSL @ py ''n'']" True
      "[''name'' \<mapsto> py ''NAME'', ''quote'' \<mapsto> DQ, ''qvalue'' \<mapsto> py ''a'' @ BSL @ py ''nb'']"
      "py ''NAME''" "py ''a'' @ BSL @ py ''nb''" DQ "[]"]
    double_quoted_pipeline[of ucd_ascii Map.empty True
      "[''name'' \<mapsto> py ''NAME'', ''quote'' \<mapsto> DQ, ''qvalue'' \<mapsto> py ''a'' @ BSL @ py ''nb'']"
      "py ''NAME''" "py ''a'' @ BSL @ py ''nb''" DQ "[]"]
  by (simp add: eval_defs)

text \<open>
  C6. Comment stripping on unquoted values respects escaping: \<open>NAME=value \#not-a-comment\<close>
  keeps its \<open>#\<close>, \<open>NAME=value # real comment\<close> resolves to \<open>value\<close>. Comments are stripped from
  unquoted values only: the same text between double or single quotes is kept whole.
\<close>

theorem comment_stripping:
  "parse_env_str U E (py ''NAME=value '' @ BSL @ py ''#not-a-comment'') True =
     Inr [(py ''NAME'', py ''value '' @ BSL @ py ''#not-a-comment'')] \<and>
   parse_env_str U E (py ''NAME=value # real comment'') True = Inr [(py ''NAME'', py ''value'')] \<and>
   parse_env_str U E (py ''NAME='' @ DQ @ py ''value # real comment'' @ DQ) True =
     Inr [(py ''NAME'', py ''value # real comment'')] \<and>
   parse_env_str U E (py ''NAME='' @ SQ @ py ''value # real comment'' @ SQ) True =
     Inr [(py ''NAME'', py ''value # real comment'')]"
  by (simp add: eval_defs)

text \<open>
  C8, as the code has it. \<open>load_env\<close> catches \<open>FileNotFoundError\<close> only: for a file that is
  not there it returns 0, logs an error record and leaves the environment as it is; any
  other exception that reading the file raises leaves \<open>load_env\<close>.
\<close>

theorem load_env_file_not_found:
  "(fs filepath = Inl FileNotFoundError \<longrightarrow>
      load_env U fs filepath overwrite sv E = (Inr 0, E, [Error_could_not_find filepath])) \<and>
   (fs filepath = Inl e \<and> e \<noteq> FileNotFoundError \<longrightarrow>
      load_env U fs filepath overwrite sv E = (Inl e, E, []))"
  by (simp add: load_env_def)

theorem load_env_file_not_found_witness:
  "(\<lambda>p. if p = py ''here.env'' then Inl PermissionError else Inl FileNotFoundError) (py ''gone.env'')
     = Inl FileNotFoundError \<and>
   load_env ucd_ascii (\<lambda>p. if p = py ''here.env'' then Inl PermissionError else Inl FileNotFoundError)
     (py ''gone.env'') False True Map.empty
     = (Inr 0, Map.empty, [Error_could_not_find (py ''gone.env'')]) \<and>
   (\<lambda>p. if p = py ''here.env'' then Inl PermissionError else Inl FileNotFoundError) (py ''here.env'')
     = Inl PermissionError \<and> PermissionError \<noteq> FileNotFoundError \<and>
   load_env ucd_ascii (\<lambda>p. if p = py ''here.env'' then Inl PermissionError else Inl FileNotFoundError)
     (py ''here.env'') False True Map.empty
     = (Inl PermissionError, Map.empty, [])"
  using load_env_file_not_found[of
      "\<lambda>p. if p = py ''here.env'' then Inl PermissionError else Inl FileNotFoundError"
      "py ''gone.env''" ucd_ascii False True Map.empty PermissionError]
    load_env_file_not_found[of
      "\<lambda>p. if p = py ''here.env'' then Inl PermissionError else Inl FileNotFoundError"
      "py ''here.env''" ucd_ascii False True Map.empty PermissionError]
  by (simp add: py_def)

text \<open>
  C8, as the claim has it, fails: a file that is there and cannot be read (here for want
  of permission) makes \<open>load_env\<close> raise.
\<close>

theorem load_env_unreadable_counterexample:
  "load_env ucd_ascii (\<lambda>p. Inl PermissionError) (py ''here.env'') False True Map.empty
     = (Inl PermissionError, Map.empty, [])"
  by (simp add: load_env_def)

text \<open>The search finds a match whenever there is one.\<close>

lemma rep_complete:
  assumes "\<forall>c \<in> set xs. p c" "m \<le> length xs" "\<forall>b. mx = Some b \<longrightarrow> length xs \<le> b"
    "k (after pv xs) ys \<noteq> None"
  shows "rep p g m mx pv (xs @ ys) k \<noteq> None"
  using assms
proof (induction xs arbitrary: m mx pv)
  case Nil
  then show ?case by (cases ys) (auto split: option.splits)
next
  case (Cons x xs)
  have "after (Some x) xs = after pv (x # xs)" by (simp add: after_def)
  then have "k (after (Some x) xs) ys \<noteq> None"
    using Cons.prems(4) by simp
  moreover have "m - 1 \<le> length xs" using Cons.prems(2) by simp
  moreover have "\<forall>b. map_option (\<lambda>n. n - 1) mx = Some b \<longrightarrow> length xs \<le> b"
    using Cons.prems(3) by (cases mx) auto
  ultimately have "rep p g (m - 1) (map_option (\<lambda>n. n - 1) mx) (Some x) (xs @ ys) k \<noteq> None"
    using Cons.IH Cons.prems(1) by simp
  moreover have "p x" "mx \<noteq> Some 0" using Cons.prems(1,3) by auto
  ultimately show ?case by (auto split: option.splits)
qed

lemma mt_complete:
  "sem U F rs pv gs w rest gs' \<Longrightarrow> s = w @ rest \<Longrightarrow> k (after pv w) rest gs' \<noteq> None \<Longrightarrow>
   mt U F rs pv s gs k \<noteq> None"
proof (induction U F rs pv s gs k arbitrary: w rest gs' rule: mt.induct)
  case (1 U F pv s gs k)
  then show ?case by simp
next
  case (2 U F c m mx g rs pv s gs k)
  from "2.prems"(1) obtain xs w' where
    x: "w = xs @ w'" "m \<le> length xs" "\<forall>b. mx = Some b \<longrightarrow> length xs \<le> b"
       "\<forall>x \<in> set xs. cls_mem U F c x" "sem U F rs (after pv xs) gs w' rest gs'"
    unfolding sem.simps by blast
  have "k (after (after pv xs) w') rest gs' \<noteq> None" using "2.prems"(3) x(1) by simp
  from "2.IH"[OF x(5) refl this]
  have "mt U F rs (after pv xs) (w' @ rest) gs k \<noteq> None" .
  from rep_complete[OF x(4) x(2) x(3), of "\<lambda>pv' s'. mt U F rs pv' s' gs k" pv "w' @ rest" g, OF this]
  show ?case using "2.prems"(2) x(1) by simp
next
  case (3 U F n body rs pv s gs k)
  from "3.prems"(1) obtain w1 w2 gs1 where
    x: "w = w1 @ w2" "sem U F body pv gs w1 (w2 @ rest) gs1"
       "sem U F rs (after pv w1) (gs1(n \<mapsto> w1)) w2 rest gs'"
    unfolding sem.simps by blast
  have s: "s = w1 @ (w2 @ rest)" using "3.prems"(2) x(1) by simp
  then have tk: "take (length s - length (w2 @ rest)) s = w1" by simp
  have "k (after (after pv w1) w2) rest gs' \<noteq> None" using "3.prems"(3) x(1) by simp
  have k': "k (after (after pv w1) w2) rest gs' \<noteq> None" using "3.prems"(3) x(1) by simp
  have "mt U F rs (after pv w1) (w2 @ rest) (gs1(n \<mapsto> take (length s - length (w2 @ rest)) s)) k
      \<noteq> None"
  proof (rule "3.IH"(1)[where w = w2 and rest = rest and gs' = gs'])
    show "sem U F rs (after pv w1) (gs1(n \<mapsto> take (length s - length (w2 @ rest)) s)) w2 rest gs'"
      unfolding tk by (rule x(3))
    show "w2 @ rest = w2 @ rest" by (rule refl)
    show "k (after (after pv w1) w2) rest gs' \<noteq> None" by (rule k')
  qed
  from "3.IH"(2)[OF x(2) s this] show ?case by simp
next
  case (4 U F a b rs pv s gs k)
  let ?k = "\<lambda>pv' s' gs'. mt U F rs pv' s' gs' k"
  from "4.prems"(1) obtain w1 w2 gs1 where
    x: "w = w1 @ w2" "sem U F a pv gs w1 (w2 @ rest) gs1 \<or> sem U F b pv gs w1 (w2 @ rest) gs1"
       "sem U F rs (after pv w1) gs1 w2 rest gs'"
    unfolding sem.simps by blast
  have s: "s = w1 @ (w2 @ rest)" using "4.prems"(2) x(1) by simp
  have "k (after (after pv w1) w2) rest gs' \<noteq> None" using "4.prems"(3) x(1) by simp
  from "4.IH"(1)[OF x(3) refl this]
  have r: "mt U F rs (after pv w1) (w2 @ rest) gs1 k \<noteq> None" .
  show ?case
  proof (cases "mt U F a pv s gs ?k")
    case (Some r')
    then show ?thesis by simp
  next
    case None
    with "4.IH"(2)[OF _ s r] have "\<not> sem U F a pv gs w1 (w2 @ rest) gs1" by blast
    with x(2) have "sem U F b pv gs w1 (w2 @ rest) gs1" by simp
    from "4.IH"(4)[OF None this s r] None show ?thesis by simp
  qed
next
  case (5 U F n rs pv s gs k)
  from "5.prems"(1) obtain t w' where
    x: "gs n = Some t" "w = t @ w'" "sem U F rs (after pv t) gs w' rest gs'"
    unfolding sem.simps by blast
  have s: "s = t @ (w' @ rest)" using "5.prems"(2) x(2) by simp
  have "k (after (after pv t) w') rest gs' \<noteq> None" using "5.prems"(3) x(2) by simp
  have tk: "take (length t) s = t" and dr: "drop (length t) s = w' @ rest" using s by simp_all
  have pv: "(if t = [] then pv else Some (last t)) = after pv t" by (simp add: after_def)
  have "mt U F rs (if t = [] then pv else Some (last t)) (drop (length t) s) gs k \<noteq> None"
  proof (rule "5.IH"[where w = w' and rest = rest and gs' = gs'])
    show "gs n = Some t" by (rule x(1))
    show "take (length t) s = t" by (rule tk)
    show "sem U F rs (if t = [] then pv else Some (last t)) gs w' rest gs'"
      unfolding pv by (rule x(3))
    show "drop (length t) s = w' @ rest" by (rule dr)
    show "k (after (if t = [] then pv else Some (last t)) w') rest gs' \<noteq> None"
      unfolding pv using "5.prems"(3) x(2) by simp
  qed
  then show ?case using x(1) tk by simp
next
  case (6 U F rs pv s gs k)
  then show ?case by auto
next
  case (7 U F rs pv s gs k)
  then show ?case by auto
qed

lemma match_at_complete:
  assumes "sem U (fst re) (snd re) pv Map.empty w rest gs"
  shows "match_at U re pv (w @ rest) \<noteq> None"
proof -
  have "mt U (fst re) (snd re) pv (w @ rest) Map.empty (\<lambda>pv' s' gs'. Some (pv', s', gs')) \<noteq> None"
    by (rule mt_complete[OF assms refl]) simp
  then show ?thesis by (simp add: match_at_def)
qed

section \<open>The shape of an assignment\<close>

lemma singleton_run:
  assumes "Suc 0 \<le> length e" "length e \<le> Suc 0" "\<forall>x \<in> set e. x = c"
  shows "e = [c]"
  using assms by (cases e) auto

text \<open>
  Every match of \<open>env_re\<close> starts at the beginning of a line, ends at the end of a line and
  reads: whitespace, a name, whitespace, \<open>=\<close>, whitespace, then either an unquoted value or
  a run of one to three quote characters, whitespace, a quoted value, whitespace, the
  same run of quote characters and text without quotes; then whitespace.
\<close>

lemma env_re_cases:
  assumes "match_at U env_re pv s = Some (pv', s', gs)"
  obtains (unquoted) sp0 nm1 nm2 sp1 sp2 val sp3 where
      "s = sp0 @ nm1 @ nm2 @ sp1 @ [61] @ sp2 @ val @ sp3 @ s'"
      "\<forall>c \<in> set sp0. py_isspace U c" "nm1 \<noteq> []" "\<forall>c \<in> set nm1. name_start c"
      "\<forall>c \<in> set nm2. name_char c" "\<forall>c \<in> set sp1. py_isspace U c"
      "\<forall>c \<in> set sp2. py_isspace U c" "\<forall>c \<in> set sp3. py_isspace U c"
      "pv = None \<or> pv = Some 10" "s' = [] \<or> hd s' = 10"
      "val \<noteq> []" "\<forall>c \<in> set val. c \<noteq> 39 \<and> c \<noteq> 34 \<and> c \<noteq> 10"
      "gs = [''name'' \<mapsto> nm1 @ nm2, ''value'' \<mapsto> val, ''2'' \<mapsto> val]"
  | (quoted) sp0 nm1 nm2 sp1 sp2 qt sp qv sp' junk sp3 where
      "s = sp0 @ nm1 @ nm2 @ sp1 @ [61] @ sp2 @ qt @ sp @ qv @ sp' @ qt @ junk @ sp3 @ s'"
      "\<forall>c \<in> set sp0. py_isspace U c" "nm1 \<noteq> []" "\<forall>c \<in> set nm1. name_start c"
      "\<forall>c \<in> set nm2. name_char c" "\<forall>c \<in> set sp1. py_isspace U c"
      "\<forall>c \<in> set sp2. py_isspace U c" "\<forall>c \<in> set sp3. py_isspace U c"
      "pv = None \<or> pv = Some 10" "s' = [] \<or> hd s' = 10"
      "qt \<noteq> []" "length qt \<le> 3" "\<forall>c \<in> set qt. c = 34 \<or> c = 124 \<or> c = 39"
      "\<forall>c \<in> set sp. py_isspace U c" "qv \<noteq> []" "\<forall>c \<in> set sp'. py_isspace U c"
      "\<forall>c \<in> set junk. c \<noteq> 39 \<and> c \<noteq> 34 \<and> c \<noteq> 10"
      "gs = [''name'' \<mapsto> nm1 @ nm2, ''quote'' \<mapsto> qt, ''qvalue'' \<mapsto> qv,
             ''2'' \<mapsto> qt @ sp @ qv @ sp' @ qt @ junk]"
proof -
  from assms obtain w where w: "s = w @ s'" "sem U (fst env_re) (snd env_re) pv Map.empty w s' gs"
    by (rule match_at_sem)
  from w(2) show thesis
    unfolding env_re_def fst_conv snd_conv
    apply (elim semE)
    subgoal premises p for xs w' w1 w2 gs1 xsa w'a xsb w'b xsc w'c xsd w'd xse w'e w1a w2a gs1a
        xsf w'f w1b w2b gs1b w1c w2c gs1c xsg w'g xsh w'h w1d w2d gs1d xsi w'i xsj w'j t w'k
        xsk w'l
    proof -
      have e: "xsd = [61]" using p by (intro singleton_run) auto
      show ?thesis
        by (rule quoted[of xs xsa xsc xsb xse xsg xsh xsi xsj xsk xsf]; use p e w(1) in \<open>cases s'\<close>)
          (auto simp add: name_start_def name_char_def)
    qed
    subgoal premises p for xs w' w1 w2 gs1 xsa w'a xsb w'b xsc w'c xsd w'd xse w'e w1a w2a gs1a
        xsf w'f w1b w2b gs1b w1c w2c gs1c xsg w'g
    proof -
      have e: "xsd = [61]" using p by (intro singleton_run) auto
      show ?thesis
        by (rule unquoted[of xs xsa xsc xsb xse xsg xsf]; use p e w(1) in \<open>cases s'\<close>)
          (auto simp add: name_start_def name_char_def)
    qed
    done
qed

lemma run_prefix_Nil:
  assumes "\<forall>c \<in> set xs. P c" "\<not> P c" "xs @ ys = c # zs"
  shows "xs = []"
  using assms by (cases xs) auto

lemma first_occurrence_eq:
  assumes "x \<notin> set xs" "x \<notin> set xs'" "xs @ x # ys = xs' @ x # ys'"
  shows "xs = xs' \<and> ys = ys'"
  using assms
proof (induction xs arbitrary: xs')
  case Nil
  then show ?case by (cases xs') auto
next
  case (Cons a xs)
  then show ?case by (cases xs') auto
qed

lemma name_char_facts:
  assumes "name_char c"
  shows "\<not> py_isspace U c" "c \<noteq> 61" "c \<noteq> 10" "c \<noteq> 34" "c \<noteq> 39" "c \<noteq> 92"
  using assms by (auto simp: name_char_def name_start_def py_isspace_def)

lemma name_start_char: "name_start c \<Longrightarrow> name_char c"
  by (simp add: name_char_def)

lemma env_name_chars:
  assumes "env_name n"
  obtains c cs where "n = c # cs" "name_start c" "\<forall>x \<in> set n. name_char x"
  using assms by (cases n) (auto simp: env_name_def list_all_iff name_start_char)

lemma space_facts:
  assumes "py_isspace U c"
  shows "c \<noteq> 61" "c \<noteq> 34" "c \<noteq> 39" "c \<noteq> 124" "c \<noteq> 123" "c \<noteq> 125" "\<not> name_char c"
  using assms by (auto simp: py_isspace_def name_char_def name_start_def split: if_splits)

text \<open>A match that begins with a name and \<open>=\<close> has exactly that name in front of \<open>=\<close>.\<close>

lemma name_prefix_aligned:
  assumes n: "env_name n"
    and eq: "n @ 61 # t = sp0 @ nm1 @ nm2 @ sp1 @ [61] @ rest"
    and sp0: "\<forall>c \<in> set sp0. py_isspace U c" and nm1: "\<forall>c \<in> set nm1. name_start c"
    and nm2: "\<forall>c \<in> set nm2. name_char c" and sp1: "\<forall>c \<in> set sp1. py_isspace U c"
  shows "sp0 = [] \<and> sp1 = [] \<and> nm1 @ nm2 = n \<and> rest = t"
proof -
  from n obtain c cs where c: "n = c # cs" "name_start c" "\<forall>x \<in> set n. name_char x"
    by (rule env_name_chars)
  have "\<not> py_isspace U c" using c(2) by (intro name_char_facts name_start_char)
  moreover from eq c(1) have "sp0 @ (nm1 @ nm2 @ sp1 @ [61] @ rest) = c # (cs @ 61 # t)" by simp
  ultimately have z: "sp0 = []" using sp0 by (intro run_prefix_Nil[of sp0 "py_isspace U" c])
  have "\<forall>c \<in> set nm1. c \<noteq> 61" using nm1 name_char_facts(2) name_start_char by blast
  moreover have "\<forall>c \<in> set nm2. c \<noteq> 61" using nm2 name_char_facts(2) by blast
  moreover have "\<forall>c \<in> set sp1. c \<noteq> 61" using sp1 space_facts(1) by blast
  ultimately have a: "61 \<notin> set (nm1 @ nm2 @ sp1)" by auto
  have b: "61 \<notin> set n" using c(3) name_char_facts(2) by auto
  from eq z have "(nm1 @ nm2 @ sp1) @ 61 # rest = n @ 61 # t" by simp
  with first_occurrence_eq[OF a b] have e: "nm1 @ nm2 @ sp1 = n" "rest = t" by simp_all
  have "sp1 = []"
  proof (rule ccontr)
    assume "sp1 \<noteq> []"
    then have "last sp1 \<in> set sp1" by simp
    moreover from \<open>sp1 \<noteq> []\<close> e(1) have "last sp1 \<in> set n"
      by (metis Un_iff last_in_set set_append)
    ultimately show False using sp1 c(3) space_facts(7) by blast
  qed
  with z e show ?thesis by simp
qed

lemma match_env_re_not_bol:
  "pv \<noteq> None \<Longrightarrow> pv \<noteq> Some 10 \<Longrightarrow> match_at U env_re pv s = None"
  by (cases pv) (simp_all add: match_at_def env_re_def)

lemma finditer_env_re_one_line:
  "10 \<notin> set s \<Longrightarrow> pv \<noteq> None \<Longrightarrow> pv \<noteq> Some 10 \<Longrightarrow> finditer U env_re pv s = []"
proof (induction s arbitrary: pv)
  case Nil
  then show ?case by (subst finditer.simps) (simp add: match_env_re_not_bol del: finditer.simps)
next
  case (Cons c cs)
  from Cons.prems have "finditer U env_re (Some c) cs = []" by (intro Cons.IH) auto
  with Cons.prems show ?case
    by (subst finditer.simps) (simp add: match_env_re_not_bol del: finditer.simps)
qed

lemma no_match_empty_quotes:
  assumes n: "env_name n" and q: "q = 34 \<or> q = 39"
  shows "match_at U env_re pv (n @ [61, q, q]) = None"
proof (rule ccontr)
  assume "match_at U env_re pv (n @ [61, q, q]) \<noteq> None"
  then obtain pv' s' gs where m: "match_at U env_re pv (n @ [61, q, q]) = Some (pv', s', gs)"
    by auto
  have nsq: "\<not> py_isspace U q" using q by (auto simp: py_isspace_def)
  from m show False
  proof (cases rule: env_re_cases)
    case h: (unquoted sp0 nm1 nm2 sp1 sp2 val sp3)
    from h(1) have "n @ 61 # [q, q] = sp0 @ nm1 @ nm2 @ sp1 @ [61] @ (sp2 @ val @ sp3 @ s')"
      by simp
    from name_prefix_aligned[OF n this h(2,4,5,6)] have r: "sp2 @ val @ sp3 @ s' = [q, q]" by simp
    from run_prefix_Nil[OF h(7) nsq r] have "sp2 = []" .
    with r h(11) have "hd val = q" by (cases val) auto
    with h(11,12) q show False by (cases val) auto
  next
    case h: (quoted sp0 nm1 nm2 sp1 sp2 qt sp qv sp' junk sp3)
    from h(1) have "n @ 61 # [q, q] =
        sp0 @ nm1 @ nm2 @ sp1 @ [61] @ (sp2 @ qt @ sp @ qv @ sp' @ qt @ junk @ sp3 @ s')"
      by simp
    from name_prefix_aligned[OF n this h(2,4,5,6)]
    have "sp2 @ qt @ sp @ qv @ sp' @ qt @ junk @ sp3 @ s' = [q, q]" by simp
    then have "length (sp2 @ qt @ sp @ qv @ sp' @ qt @ junk @ sp3 @ s') = 2" by simp
    moreover have "length qt \<ge> 1" "length qv \<ge> 1" using h(11,15) by (simp_all add: Suc_le_eq)
    ultimately show False by simp
  qed
qed

text \<open>
  C10, for a text that is the one line. For every name that \<open>env_re\<close> accepts, the text
  \<open>NAME=""\<close> and the text \<open>NAME=''\<close> are matched by neither alternative of the pattern,
  and \<open>parse_env_str\<close> returns the empty mapping for them.
\<close>

theorem empty_quoted_value_dropped:
  "env_name n \<longrightarrow>
     parse_env_str U E (n @ py ''='' @ DQ @ DQ) sv = Inr [] \<and>
     parse_env_str U E (n @ py ''='' @ SQ @ SQ) sv = Inr []"
proof
  assume n: "env_name n"
  from n obtain c cs where c: "n = c # cs" "name_start c" "\<forall>x \<in> set n. name_char x"
    by (rule env_name_chars)
  have nl: "10 \<notin> set n" using c(3) name_char_facts(3) by auto
  have c10: "c \<noteq> 10" using c(2) name_char_facts(3) name_start_char by auto
  have "finditer U env_re None (n @ [61, q, q]) = []" if q: "q = 34 \<or> q = 39" for q
  proof -
    have "finditer U env_re (Some c) (cs @ [61, q, q]) = []"
      using nl c(1) c10 q by (intro finditer_env_re_one_line) auto
    then show ?thesis
      using no_match_empty_quotes[OF n q, of U None] c(1)
      by (subst finditer.simps) (simp del: finditer.simps)
  qed
  from this[of 34] this[of 39]
  show "parse_env_str U E (n @ py ''='' @ DQ @ DQ) sv = Inr [] \<and>
     parse_env_str U E (n @ py ''='' @ SQ @ SQ) sv = Inr []"
    by (simp add: parse_env_str_def py_def)
qed

theorem empty_quoted_value_dropped_witness:
  "env_name (py ''NAME'') \<and>
   parse_env_str ucd_ascii Map.empty (py ''NAME='' @ DQ @ DQ) True = Inr [] \<and>
   parse_env_str ucd_ascii Map.empty (py ''NAME='' @ SQ @ SQ) True = Inr []"
proof -
  have "env_name (py ''NAME'')"
    by (simp add: env_name_def py_def name_start_def name_char_def)
  with empty_quoted_value_dropped[of "py ''NAME''" ucd_ascii Map.empty True]
  show ?thesis by (simp add: py_def)
qed

text \<open>
  C10, for a line inside a longer text, fails: \<open>.\<close> matches a newline, so the quotes that
  open the empty value of one line pair with the quotes of a later line. In the text
  \<open>A=""\<close>, \<open>B=""\<close> the entry \<open>A\<close> gets the value \<open>B=\<close>.
\<close>

theorem empty_quoted_value_counterexample:
  "parse_env_str ucd_ascii Map.empty (py ''A='' @ DQ @ DQ @ NL @ py ''B='' @ DQ @ DQ) True =
     Inr [(py ''A'', py ''B='')]"
  by (simp add: eval_defs)

section \<open>Single-quoted values\<close>

lemma sem_NilI: "sem U F [] pv gs [] rest gs"
  by simp

lemma sem_RepI:
  "\<forall>x \<in> set xs. cls_mem U F c x \<Longrightarrow> m \<le> length xs \<Longrightarrow> \<forall>b. mx = Some b \<longrightarrow> length xs \<le> b \<Longrightarrow>
   sem U F rs (after pv xs) gs w' rest gs' \<Longrightarrow> sem U F (Rep c m mx g # rs) pv gs (xs @ w') rest gs'"
  unfolding sem.simps by blast

lemma sem_CapI:
  "sem U F body pv gs w1 (w2 @ rest) gs1 \<Longrightarrow> sem U F rs (after pv w1) (gs1(n \<mapsto> w1)) w2 rest gs' \<Longrightarrow>
   sem U F (Cap n body # rs) pv gs (w1 @ w2) rest gs'"
  unfolding sem.simps by blast

lemma sem_AltI1:
  "sem U F a pv gs w1 (w2 @ rest) gs1 \<Longrightarrow> sem U F rs (after pv w1) gs1 w2 rest gs' \<Longrightarrow>
   sem U F (Alt a b # rs) pv gs (w1 @ w2) rest gs'"
  unfolding sem.simps by blast

lemma sem_AltI2:
  "sem U F b pv gs w1 (w2 @ rest) gs1 \<Longrightarrow> sem U F rs (after pv w1) gs1 w2 rest gs' \<Longrightarrow>
   sem U F (Alt a b # rs) pv gs (w1 @ w2) rest gs'"
  unfolding sem.simps by blast

lemma sem_RefI:
  "gs n = Some t \<Longrightarrow> sem U F rs (after pv t) gs w' rest gs' \<Longrightarrow>
   sem U F (Ref n # rs) pv gs (t @ w') rest gs'"
  unfolding sem.simps by blast

lemma sem_BolI:
  "pv = None \<or> (multiline F \<and> pv = Some 10) \<Longrightarrow> sem U F rs pv gs w rest gs' \<Longrightarrow>
   sem U F (Bol # rs) pv gs w rest gs'"
  by simp

lemma sem_EolI:
  "(case w @ rest of [] \<Rightarrow> True | c # cs \<Rightarrow> c = 10 \<and> (multiline F \<or> cs = [])) \<Longrightarrow>
   sem U F rs pv gs w rest gs' \<Longrightarrow> sem U F (Eol # rs) pv gs w rest gs'"
  by simp

text \<open>A quoted assignment on one line, written out with the pieces of the pattern, is a match.\<close>

lemma env_re_quoted_match:
  assumes "\<forall>c \<in> set nm1. name_start c" "nm1 \<noteq> []"
    and "qt \<noteq> []" "length qt \<le> 3" "\<forall>c \<in> set qt. c = 34 \<or> c = 124 \<or> c = 39" "qv \<noteq> []"
  shows "\<exists>gs. sem U (fst env_re) (snd env_re) None Map.empty
     ([] @ ((nm1 @ ([] @ [])) @ ([] @ ([61] @ ([] @ ((((qt @ []) @ ([] @ ((qv @ []) @ ([] @ ((qt @ []) @ ([] @ [])))))) @ []) @ ([] @ []))))))) [] gs"
proof -
  let ?F = "\<lparr>multiline = True, dotall = True\<rparr>"
  have sp: "\<forall>x \<in> set []. cls_mem U ?F (OneOf [Space]) x" by simp
  have n1: "\<forall>x \<in> set nm1. cls_mem U ?F
      (OneOf [Rng CHR ''a'' CHR ''z'', Rng CHR ''A'' CHR ''Z'', Chr CHR ''_'']) x"
    using assms(1) by (auto simp: name_start_def)
  have n2: "\<forall>x \<in> set []. cls_mem U ?F
      (OneOf [Rng CHR ''a'' CHR ''z'', Rng CHR ''A'' CHR ''Z'', Rng CHR ''0'' CHR ''9'',
              Chr CHR ''_'']) x" by simp
  have eq: "\<forall>x \<in> set [61]. cls_mem U ?F (OneOf [Chr CHR ''='']) x" by simp
  have q: "\<forall>x \<in> set qt. cls_mem U ?F (OneOf [Chr CHR 0x22, Chr CHR ''|'', Chr CHR 0x27]) x"
    using assms(5) by auto
  have d: "\<forall>x \<in> set qv. cls_mem U ?F Dot x" by simp
  have j: "\<forall>x \<in> set []. cls_mem U ?F (NoneOf [Chr CHR 0x27, Chr CHR 0x22, Chr CHR 0x0A]) x"
    by simp
  have l: "1 \<le> length nm1" "1 \<le> length qt" "1 \<le> length qv"
    using assms(2,3,6) by (simp_all add: Suc_le_eq)
  show ?thesis
    unfolding env_re_def fst_conv snd_conv
    apply (rule exI)
    apply (rule sem_BolI, simp)
    apply (rule sem_RepI[OF sp], simp, simp)
    apply (rule sem_CapI)
     apply (rule sem_RepI[OF n1 l(1)], simp)
     apply (rule sem_RepI[OF n2], simp, simp)
     apply (rule sem_NilI)
    apply (rule sem_RepI[OF sp], simp, simp)
    apply (rule sem_RepI[OF eq], simp, simp)
    apply (rule sem_RepI[OF sp], simp, simp)
    apply (rule sem_CapI)
     apply (rule sem_AltI1)
      apply (rule sem_CapI)
       apply (rule sem_RepI[OF q l(2)], use assms(4) in simp)
       apply (rule sem_NilI)
      apply (rule sem_RepI[OF sp], simp, simp)
      apply (rule sem_CapI)
       apply (rule sem_RepI[OF d l(3)], simp)
       apply (rule sem_NilI)
      apply (rule sem_RepI[OF sp], simp, simp)
      apply (rule sem_RefI, simp)
      apply (rule sem_RepI[OF j], simp, simp)
      apply (rule sem_NilI)
     apply (rule sem_NilI)
    apply (rule sem_RepI[OF sp], simp, simp)
    apply (rule sem_EolI, simp)
    apply (rule sem_NilI)
    done
qed

lemma last_occurrence_eq:
  assumes "x \<notin> set u" "a @ x # b = u @ [x]"
  shows "a = u \<and> b = []"
proof -
  have "x \<notin> set a"
  proof
    assume "x \<in> set a"
    then obtain a1 a2 where a: "a = a1 @ x # a2" "x \<notin> set a1"
      by (meson split_list_first)
    with assms(2) have "a1 @ x # (a2 @ x # b) = u @ x # []" by simp
    from first_occurrence_eq[OF a(2) assms(1) this] show False by simp
  qed
  from first_occurrence_eq[OF this assms(1), of b "[]"] assms(2) show ?thesis by simp
qed

lemma match_escaped_quote_re_none: "c \<noteq> 92 \<Longrightarrow> match_at U escaped_quote_re pv (c # cs) = None"
  by (simp add: match_at_def escaped_quote_re_def)

lemma match_escaped_quote_re_Nil: "match_at U escaped_quote_re pv [] = None"
  by (simp add: match_at_def escaped_quote_re_def)

text \<open>A value without a backslash has no escaped quote to unescape.\<close>

lemma sub_template_no_backslash:
  "92 \<notin> set s \<Longrightarrow> sub_template U escaped_quote_re n pv s = s"
proof (induction s arbitrary: pv)
  case Nil
  show ?case
    by (subst sub_template.simps) (simp add: match_escaped_quote_re_Nil del: sub_template.simps)
next
  case (Cons c cs)
  then have "sub_template U escaped_quote_re n (Some c) cs = cs" by simp
  with Cons.prems show ?case
    by (subst sub_template.simps) (simp add: match_escaped_quote_re_none del: sub_template.simps)
qed

lemma match_env_re_Nil: "match_at U env_re pv [] = None"
  by (simp add: match_at_def env_re_def)

lemma finditer_env_re_Nil: "finditer U env_re pv [] = []"
  by (subst finditer.simps) (simp add: match_env_re_Nil del: finditer.simps)

lemma sub_name_chars:
  assumes "sub_name U n"
  shows "39 \<notin> set n" "92 \<notin> set n" "n \<noteq> []"
  using assms
  by (auto simp: sub_name_def list_all_iff name_start_def py_isalnum_def split: list.splits if_splits)

lemma env_name_NAME: "env_name (py ''NAME'')"
  by (simp add: env_name_def py_def name_start_def name_char_def)

text \<open>The one match of \<open>env_re\<close> in \<open>NAME='{OTHER}'\<close>, for every name \<open>OTHER\<close>.\<close>

lemma single_quoted_match:
  assumes "sub_name U other"
  shows "\<exists>pv'. match_at U env_re None (py ''NAME='' @ SQ @ [123] @ other @ [125] @ SQ) =
     Some (pv', [], [''name'' \<mapsto> py ''NAME'', ''quote'' \<mapsto> SQ,
       ''qvalue'' \<mapsto> [123] @ other @ [125], ''2'' \<mapsto> SQ @ [123] @ other @ [125] @ SQ])"
proof -
  let ?T = "39 # 123 # other @ [125, 39]"
  let ?s = "py ''NAME='' @ SQ @ [123] @ other @ [125] @ SQ"
  have s: "?s = py ''NAME'' @ 61 # ?T" by (simp add: py_def)
  have o39: "39 \<notin> set (123 # other @ [125])" using sub_name_chars(1)[OF assms] by simp
  have ns: "\<not> py_isspace U 39" "\<not> py_isspace U 123" "\<not> py_isspace U 125"
    by (simp_all add: py_isspace_def)
  have "\<exists>gs. sem U (fst env_re) (snd env_re) None Map.empty
     ([] @ ((py ''NAME'' @ ([] @ [])) @ ([] @ ([61] @ ([] @ ((((SQ @ []) @ ([] @
        (((123 # other @ [125]) @ []) @ ([] @ ((SQ @ []) @ ([] @ [])))))) @ []) @
        ([] @ []))))))) [] gs"
    by (rule env_re_quoted_match) (simp_all add: py_def name_start_def)
  then obtain gs0 where "sem U (fst env_re) (snd env_re) None Map.empty ?s [] gs0"
    by (auto simp: py_def)
  from match_at_complete[OF this] obtain pv' s' gs where
    m: "match_at U env_re None ?s = Some (pv', s', gs)" by auto
  from m have "s' = [] \<and> gs = [''name'' \<mapsto> py ''NAME'', ''quote'' \<mapsto> SQ,
       ''qvalue'' \<mapsto> [123] @ other @ [125], ''2'' \<mapsto> SQ @ [123] @ other @ [125] @ SQ]"
  proof (cases rule: env_re_cases)
    case h: (unquoted sp0 nm1 nm2 sp1 sp2 val sp3)
    from h(1) s have "py ''NAME'' @ 61 # ?T =
        sp0 @ nm1 @ nm2 @ sp1 @ [61] @ (sp2 @ val @ sp3 @ s')" by simp
    from name_prefix_aligned[OF env_name_NAME this h(2,4,5,6)]
    have r: "sp2 @ val @ sp3 @ s' = ?T" by simp
    from run_prefix_Nil[OF h(7) ns(1) r] have "sp2 = []" .
    with r h(11) have "hd val = 39" by (cases val) auto
    with h(11,12) show ?thesis by (cases val) auto
  next
    case h: (quoted sp0 nm1 nm2 sp1 sp2 qt sp qv sp' junk sp3)
    from h(1) s have "py ''NAME'' @ 61 # ?T =
        sp0 @ nm1 @ nm2 @ sp1 @ [61] @ (sp2 @ qt @ sp @ qv @ sp' @ qt @ junk @ sp3 @ s')"
      by simp
    from name_prefix_aligned[OF env_name_NAME this h(2,4,5,6)]
    have nm: "nm1 @ nm2 = py ''NAME''"
      and r: "sp2 @ qt @ sp @ qv @ sp' @ qt @ junk @ sp3 @ s' = ?T" by simp_all
    from run_prefix_Nil[OF h(7) ns(1) r] have sp2: "sp2 = []" .
    define X where "X = sp @ qv @ sp' @ qt @ junk @ sp3 @ s'"
    from r sp2 have rX: "qt @ X = ?T" by (simp add: X_def)
    from h(11) obtain a qt' where qt: "qt = a # qt'" by (cases qt) auto
    with rX have a: "a = 39" and r2: "qt' @ X = 123 # other @ [125, 39]" by simp_all
    have "\<forall>c \<in> set qt'. c = 34 \<or> c = 124 \<or> c = 39" using h(13) qt by simp
    from run_prefix_Nil[OF this _ r2] have qt': "qt' = []" by simp
    with r2 have r3: "sp @ (qv @ sp' @ qt @ junk @ sp3 @ s') = 123 # other @ [125, 39]"
      by (simp add: X_def)
    from run_prefix_Nil[OF h(14) ns(2) r3] have sp: "sp = []" .
    with r3 qt qt' a have "(qv @ sp') @ 39 # (junk @ sp3 @ s') = (123 # other @ [125]) @ [39]"
      by simp
    from last_occurrence_eq[OF o39 this]
    have r4: "qv @ sp' = 123 # other @ [125]" and e: "junk @ sp3 @ s' = []" by simp_all
    have sp': "sp' = []"
    proof (rule ccontr)
      assume "sp' \<noteq> []"
      with r4 have "last sp' = 125" by (metis last_appendR last_snoc append_Cons)
      with \<open>sp' \<noteq> []\<close> h(16) ns(3) show False by (metis last_in_set)
    qed
    with r4 e qt qt' a nm sp h(18) show ?thesis by simp
  qed
  with m show ?thesis by simp
qed

text \<open>
  C4. Single-quoted values are used literally, without substitution: for every name
  \<open>OTHER\<close> and every process environment, \<open>NAME='{OTHER}'\<close> gives \<open>NAME\<close> the value
  \<open>{OTHER}\<close>. No substitution is applied behind a run of one to three single quotes:
  whenever the quote of a match has no double quote, the value stored is the quoted
  value with its escaped quotes unescaped, whatever the environment holds; with
  \<open>OTHER\<close> set in the environment, \<open>NAME='''{OTHER}'''\<close> still resolves to \<open>{OTHER}\<close>.
\<close>

theorem single_quoted_literal:
  "(sub_name U other \<longrightarrow>
      parse_env_str U E (py ''NAME='' @ SQ @ py ''{'' @ other @ py ''}'' @ SQ) sv =
        Inr [(py ''NAME'', py ''{'' @ other @ py ''}'')]) \<and>
   (m ''name'' = Some n \<and> \<not> truthy (m ''value'') \<and> m ''qvalue'' = Some q \<and> q \<noteq> [] \<and>
    m ''quote'' = Some qt \<and> 34 \<notin> set qt \<longrightarrow>
      parse_match U E sv env_vars m =
        Inr (dict_set env_vars n (sub_template U escaped_quote_re ''1'' None q))) \<and>
   parse_env_str U E (py ''NAME='' @ SQ @ SQ @ SQ @ py ''{OTHER}'' @ SQ @ SQ @ SQ) sv =
     Inr [(py ''NAME'', py ''{OTHER}'')]"
proof (intro conjI impI)
  assume o: "sub_name U other"
  from single_quoted_match[OF o] obtain pv' where
    m: "match_at U env_re None (py ''NAME='' @ SQ @ [123] @ other @ [125] @ SQ) =
     Some (pv', [], [''name'' \<mapsto> py ''NAME'', ''quote'' \<mapsto> SQ,
       ''qvalue'' \<mapsto> [123] @ other @ [125], ''2'' \<mapsto> SQ @ [123] @ other @ [125] @ SQ])"
    by blast
  have f: "finditer U env_re None (py ''NAME='' @ SQ @ [123] @ other @ [125] @ SQ) =
      [[''name'' \<mapsto> py ''NAME'', ''quote'' \<mapsto> SQ,
       ''qvalue'' \<mapsto> [123] @ other @ [125], ''2'' \<mapsto> SQ @ [123] @ other @ [125] @ SQ]]"
    by (subst finditer.simps, subst m) (simp add: finditer_env_re_Nil del: finditer.simps)
  have "92 \<notin> set ([123] @ other @ [125])" using sub_name_chars(2)[OF o] by simp
  then have u: "sub_template U escaped_quote_re ''1'' None ([123] @ other @ [125]) =
      [123] @ other @ [125]" by (rule sub_template_no_backslash)
  have p: "py ''NAME='' @ SQ @ py ''{'' @ other @ py ''}'' @ SQ =
      py ''NAME='' @ SQ @ [123] @ other @ [125] @ SQ" by (simp add: py_def)
  show "parse_env_str U E (py ''NAME='' @ SQ @ py ''{'' @ other @ py ''}'' @ SQ) sv =
        Inr [(py ''NAME'', py ''{'' @ other @ py ''}'')]"
    unfolding p parse_env_str_def f
    using u by (simp add: parse_match_def truthy_def group_text_def py_def)
next
  assume "m ''name'' = Some n \<and> \<not> truthy (m ''value'') \<and> m ''qvalue'' = Some q \<and> q \<noteq> [] \<and>
    m ''quote'' = Some qt \<and> 34 \<notin> set qt"
  then show "parse_match U E sv env_vars m =
        Inr (dict_set env_vars n (sub_template U escaped_quote_re ''1'' None q))"
    by (simp add: parse_match_def truthy_def group_text_def)
next
  show "parse_env_str U E (py ''NAME='' @ SQ @ SQ @ SQ @ py ''{OTHER}'' @ SQ @ SQ @ SQ) sv =
     Inr [(py ''NAME'', py ''{OTHER}'')]"
    by (simp add: eval_defs)
qed

theorem single_quoted_literal_witness:
  "sub_name ucd_ascii (py ''OTHER'') \<and>
   parse_env_str ucd_ascii [py ''OTHER'' \<mapsto> py ''x''] (py ''NAME='' @ SQ @ py ''{OTHER}'' @ SQ) True =
     Inr [(py ''NAME'', py ''{OTHER}'')] \<and>
   \<not> truthy ([''name'' \<mapsto> py ''NAME'', ''quote'' \<mapsto> SQ, ''qvalue'' \<mapsto> py ''{OTHER}''] ''value'') \<and>
   34 \<notin> set SQ \<and>
   parse_match ucd_ascii [py ''OTHER'' \<mapsto> py ''x''] True []
     [''name'' \<mapsto> py ''NAME'', ''quote'' \<mapsto> SQ, ''qvalue'' \<mapsto> py ''{OTHER}''] =
     Inr [(py ''NAME'', py ''{OTHER}'')]"
proof -
  have o: "sub_name ucd_ascii (py ''OTHER'')"
    by (simp add: sub_name_def py_def name_start_def py_isalnum_def)
  have u: "sub_template ucd_ascii escaped_quote_re ''1'' None (py ''{OTHER}'') = py ''{OTHER}''"
    by (rule sub_template_no_backslash) (simp add: py_def)
  from single_quoted_literal[of ucd_ascii "py ''OTHER''" "[py ''OTHER'' \<mapsto> py ''x'']" True
      "[''name'' \<mapsto> py ''NAME'', ''quote'' \<mapsto> SQ, ''qvalue'' \<mapsto> py ''{OTHER}'']"
      "py ''NAME''" "py ''{OTHER}''" SQ "[]"] o u
  show ?thesis by (simp add: py_def truthy_def)
qed

section \<open>Loading twice\<close>















end
